theory Spec2Isabelle
  imports Complex_Main "HOL-Library.Signed_Division" "HOL-Library.Log_Nat"
begin

section \<open>Arithmetic of the source language\<close>

text \<open>
  The search controller computes on C \<open>int\<close>s. They are modelled as mathematical
  integers: the controller's own guards end the search before a width above 1000 (or
  above four times the requested width) is tried, far from the 32-bit range. C's
  \<open>%\<close> truncates towards zero, which is \<open>smod\<close> of
  \<open>HOL-Library.Signed_Division\<close>, not HOL's \<open>mod\<close>.

  The scale factor of the search is a C \<open>float\<close>: in
  \<open>current = (high + low) / scale_factor\<close> the \<open>int\<close> sum is converted to
  \<open>float\<close>, divided in \<open>float\<close>, and the quotient is converted back to
  \<open>int\<close>, truncating towards zero. These operations are modelled with the rounding
  of IEEE 754 single precision (24 significant bits, round to nearest, ties to even, one
  rounding per operation). The widths of the search lie between 1 and \<open>2 ^ 31\<close>,
  far from overflow and underflow, so the exponent range is left unbounded.

  The distribution calculator computes on \<open>float\<close>s as well, with the library's
  \<open>exp\<close>. There floating-point values are idealised as real numbers (no rounding, no
  overflow, no underflow), and only the two places where the code can divide by zero are
  written out (see \<open>cfloat\<close> below). So the values that \<open>comp_width\<close> returns
  are those of the code up to rounding only; what is proved of the calculator below
  (which inputs raise, and the track counts at an exactly representable input) does not
  depend on the rounding.

  Placement, the router, the snapshot of the best routing, the routing graph, the
  legality check, drawing and the output files are external to the two source files.
  Of these only the answer of \<open>try_route\<close> enters the model; the other calls are
  taken to return.
\<close>

definition int_of_float :: "real \<Rightarrow> int" where
  "int_of_float r = (if 0 \<le> r then \<lfloor>r\<rfloor> else \<lceil>r\<rceil>)"

text \<open>The integer nearest to a real number; of two nearest integers, the even one.\<close>

definition round_half_even :: "real \<Rightarrow> int" where
  "round_half_even r =
     (let f = \<lfloor>r\<rfloor>; d = r - of_int f
      in if d < 1 / 2 then f else if 1 / 2 < d then f + 1 else if even f then f else f + 1)"

text \<open>
  The binary exponent of a real number other than 0: the integer \<open>e\<close> with
  \<open>2 ^ e \<le> \<bar>x\<bar> < 2 ^ (e + 1)\<close>, which is \<open>\<lfloor>log 2 \<bar>x\<bar>\<rfloor>\<close>
  (\<open>float_exponent_log\<close> below), computed from the number of binary digits of an
  integer; and the power of 2 with an integer exponent.
\<close>

definition float_exponent :: "real \<Rightarrow> int" where
  "float_exponent x =
     (if 1 \<le> \<bar>x\<bar> then bitlen \<lfloor>\<bar>x\<bar>\<rfloor> - 1 else - bitlen (\<lceil>1 / \<bar>x\<bar>\<rceil> - 1))"

definition pow2 :: "int \<Rightarrow> real" where
  "pow2 e = (if 0 \<le> e then 2 ^ nat e else 1 / 2 ^ nat (- e))"

text \<open>
  The \<open>float\<close> nearest to a real number: with the exponent \<open>e\<close> of \<open>x\<close> the
  \<open>float\<close>s around \<open>x\<close> are the multiples of \<open>2 ^ (e - 23)\<close>.
\<close>

definition to_float :: "real \<Rightarrow> real" where
  "to_float x =
     (if x = 0 then 0
      else let ulp = pow2 (float_exponent x - 23)
           in of_int (round_half_even (x / ulp)) * ulp)"

text \<open>
  The conversion of an \<open>int\<close> to \<open>float\<close>, and the \<open>float\<close> division and
  multiplication.
\<close>

definition float_of_int :: "int \<Rightarrow> real" where
  "float_of_int n = to_float (real_of_int n)"

definition float_div :: "real \<Rightarrow> real \<Rightarrow> real" where
  "float_div a b = to_float (a / b)"

definition float_mul :: "real \<Rightarrow> real \<Rightarrow> real" where
  "float_mul a b = to_float (a * b)"

section \<open>Data model\<close>

datatype e_directionality = UNI_DIRECTIONAL | BI_DIRECTIONAL

text \<open>
  \<open>enum e_stat {UNIFORM, GAUSSIAN, PULSE, DELTA}\<close>. A C enumeration is an integer,
  and \<open>comp_width\<close> has a \<open>default\<close> branch for the values outside the four
  names, so the kind of a profile is its integer code.
\<close>

type_synonym e_stat = int

definition UNIFORM :: e_stat where
  "UNIFORM = 0"

definition GAUSSIAN :: e_stat where
  "GAUSSIAN = 1"

definition PULSE :: e_stat where
  "PULSE = 2"

definition DELTA :: e_stat where
  "DELTA = 3"

record t_chan =
  type :: e_stat
  peak :: real
  width :: real
  xpeak :: real
  dc :: real

record t_chan_width_dist =
  chan_width_io :: real
  chan_x_dist :: t_chan
  chan_y_dist :: t_chan

text \<open>
  The global \<open>chan_width\<close>: the track counts per row (\<open>x_list\<close>, indices 0 to
  \<open>ny\<close>) and per column (\<open>y_list\<close>, indices 0 to \<open>nx\<close>) and their extremes.
  The field \<open>max\<close> of the source is \<open>max_width\<close> here.
\<close>

record t_chan_width =
  x_list :: "int list"
  y_list :: "int list"
  max_width :: int
  x_max :: int
  x_min :: int
  y_max :: int
  y_min :: int

text \<open>
  A floating-point value as far as the calculator needs it: a real number, the infinity
  that \<open>1.0 / (ny - 2.0)\<close> yields on a grid of extent 2, or the NaN that the
  Gaussian profile yields from \<open>0 / 0\<close>.
\<close>

datatype cfloat = Finite real | Plus_infinity | Not_a_number

text \<open>
  Every way in which the run can end abnormally: the seven \<open>vpr_throw\<close> sites of
  the file, in the order of the source lines 131, 300, 306, 329, 335, 423 and 679, and
  the assertion \<open>VTR_ASSERT(current > 0)\<close> of line 310.
\<close>

datatype vpr_error =
    Odd_chan_width_given
  | Odd_chan_width_tried
  | Fs_not_multiple_of_three
  | Unroutable_with_current_options
  | Width_above_1000
  | Wneed_exceedingly_large
  | Unknown_channel_type
  | Assertion_failed

text \<open>
  The messages that depend on the flag \<open>Fc_clipped\<close>: the warning inside the success
  branch of a trial, the rejection of a clipped success, and the warning about the best
  routing at the end of the search.
\<close>

datatype message =
    Fc_output_clipped_warning
  | Routing_rejected
  | Best_routing_clipped_warning

text \<open>
  The inputs of the search, gathered from \<open>router_opts\<close>, \<open>det_routing_arch\<close>,
  \<open>arch\<close> and the globals \<open>type_descriptors\<close>, \<open>nx\<close> and \<open>ny\<close>.
  The header that defines the sentinel \<open>NO_FIXED_CHANNEL_WIDTH\<close> is not among the
  sources, so \<open>fixed_channel_width\<close> is an option and \<open>None\<close> is the sentinel.
\<close>

record search_env =
  directionality :: e_directionality
  Fs :: int
  fixed_channel_width :: "int option"
  min_chan_width_hint :: int
  verify_binary_search :: bool
  doRouting :: bool
  type_num_pins :: "int list"
  Chans :: t_chan_width_dist
  nx :: nat
  ny :: nat

text \<open>
  The routing oracle \<open>try_route\<close> is external, expensive and not a function of the
  width alone (it reads and writes the global routing and placement). Its outcome is
  modelled as a function of the number of earlier calls and of the width, which covers
  every sequence of outcomes.
\<close>

type_synonym route_oracle = "nat \<Rightarrow> int \<Rightarrow> bool"

text \<open>
  The local variables of \<open>binary_search_place_and_route\<close> that the search loop
  reads, with two logs: the widths passed to \<open>try_route\<close> so far, in call order, and
  the messages printed that depend on \<open>Fc_clipped\<close>. The flags \<open>prev_success\<close> and
  \<open>prev2_success\<close> of the verifier are arguments of \<open>verify_loop\<close>.
\<close>

record search_state =
  current :: int
  low :: int
  high :: int
  final :: int
  attempt_count :: int
  using_minw_hint :: bool
  Fc_clipped :: bool
  routed :: "int list"
  messages :: "message list"

datatype search_step =
    Abort vpr_error search_state
  | Break search_state
  | Next search_state

fun step_state :: "search_step \<Rightarrow> search_state" where
  "step_state (Abort e s) = s"
| "step_state (Break s) = s"
| "step_state (Next s) = s"

section \<open>The channel-width search controller\<close>

definition udsd_multiplier :: "search_env \<Rightarrow> int" where
  "udsd_multiplier env = (if directionality env = BI_DIRECTIONAL then 1 else 2)"

definition max_pins_per_clb :: "search_env \<Rightarrow> int" where
  "max_pins_per_clb env = foldl max 0 (type_num_pins env)"

text \<open>Lines 277 to 295: the first guess and the lower bound.\<close>

definition initial_guess :: "search_env \<Rightarrow> search_state" where
  "initial_guess env =
     (case fixed_channel_width env of
        Some W \<Rightarrow>
          \<lparr>current = W + 5 * udsd_multiplier env, low = W - 1 * udsd_multiplier env,
           high = - 1, final = - 1, attempt_count = 0, using_minw_hint = False,
           Fc_clipped = False, routed = [], messages = []\<rparr>
      | None \<Rightarrow>
          if min_chan_width_hint env > 0
          then \<lparr>current = min_chan_width_hint env, low = - 1,
                high = - 1, final = - 1, attempt_count = 0, using_minw_hint = True,
                Fc_clipped = False, routed = [], messages = []\<rparr>
          else \<lparr>current = max_pins_per_clb env + max_pins_per_clb env smod 2, low = - 1,
                high = - 1, final = - 1, attempt_count = 0, using_minw_hint = False,
                Fc_clipped = False, routed = [], messages = []\<rparr>)"

text \<open>Lines 297 to 315: the constraints checked before the first trial.\<close>

definition search_init :: "search_env \<Rightarrow> vpr_error + search_state" where
  "search_init env =
     (let s = initial_guess env in
      if directionality env = UNI_DIRECTIONAL \<and> current s smod 2 \<noteq> 0
        then Inl Odd_chan_width_tried
      else if directionality env \<noteq> UNI_DIRECTIONAL \<and> Fs env smod 3 \<noteq> 0
        then Inl Fs_not_multiple_of_three
      else if \<not> current s > 0 then Inl Assertion_failed
      else Inr s)"

text \<open>Lines 327 to 339: the guard against huge channel widths.\<close>

definition width_guard :: "search_env \<Rightarrow> search_state \<Rightarrow> vpr_error option" where
  "width_guard env s =
     (case fixed_channel_width env of
        Some W \<Rightarrow> if current s > W * 4 then Some Unroutable_with_current_options else None
      | None \<Rightarrow> if current s > 1000 then Some Width_above_1000 else None)"

text \<open>Line 431, the last statement of the loop body.\<close>

definition round_to_multiplier :: "search_env \<Rightarrow> search_state \<Rightarrow> search_state" where
  "round_to_multiplier env s =
     s\<lparr>current := current s + current s smod udsd_multiplier env\<rparr>"

text \<open>
  Lines 368 to 404: the branch \<open>success && !Fc_clipped\<close>. \<open>save_routing\<close> acts on
  the external snapshot only. The scale factor is a \<open>float\<close>: 2, or the \<open>float\<close>
  nearest to 1.1 in the first pass after a hint.
\<close>

definition route_succeeded :: "search_env \<Rightarrow> search_state \<Rightarrow> search_state" where
  "route_succeeded env s =
     (let s1 = (if current s = high s then s\<lparr>final := current s\<rparr> else s);
          s2 = s1\<lparr>high := current s1\<rparr>;
          s3 = (if Fc_clipped s2
                then s2\<lparr>messages := messages s2 @ [Fc_output_clipped_warning]\<rparr> else s2);
          scale_factor = (if using_minw_hint s3 \<and> attempt_count s3 = 1 then to_float 1.1 else 2);
          s4 = (if high s3 - low s3 \<le> 1 * udsd_multiplier env
                then s3\<lparr>final := high s3\<rparr> else s3)
      in if low s4 \<noteq> - 1
         then s4\<lparr>current := int_of_float (float_div (float_of_int (high s4 + low s4)) scale_factor)\<rparr>
         else s4\<lparr>current := int_of_float (float_div (float_of_int (high s4)) scale_factor)\<rparr>)"

text \<open>
  Lines 405 to 430: the other branch; \<open>success\<close> is the oracle's answer. Here the scale
  factor still has its default value 2.
\<close>

definition route_failed :: "search_env \<Rightarrow> bool \<Rightarrow> search_state \<Rightarrow> search_step" where
  "route_failed env success s =
     (let scale_factor = (2 :: real);
          s1 = (if success \<and> Fc_clipped s
                then s\<lparr>messages := messages s @ [Routing_rejected]\<rparr> else s);
          s2 = s1\<lparr>low := current s1\<rparr>
      in if high s2 \<noteq> - 1
         then let s3 = (if high s2 - low s2 \<le> 1 * udsd_multiplier env
                        then s2\<lparr>final := high s2\<rparr> else s2)
              in Next (round_to_multiplier env
                   (s3\<lparr>current :=
                         int_of_float (float_div (float_of_int (high s3 + low s3)) scale_factor)\<rparr>))
         else (case fixed_channel_width env of
                 Some W \<Rightarrow>
                   if low s2 < W + 30
                   then Next (round_to_multiplier env
                          (s2\<lparr>current := low s2 + 5 * udsd_multiplier env\<rparr>))
                   else Abort Wneed_exceedingly_large s2
               | None \<Rightarrow>
                   Next (round_to_multiplier env
                     (s2\<lparr>current :=
                           int_of_float (float_mul (float_of_int (low s2)) scale_factor)\<rparr>))))"

text \<open>
  Lines 318 to 432: one pass through the body of \<open>while (final == -1)\<close>. The result
  tells how the pass ended: by a \<open>vpr_throw\<close>, by the \<open>break\<close> of the Fs check, or
  at the end of the body. The call of \<open>try_route\<close> is the one with the number
  \<open>length (routed s)\<close>, counted from 0.
\<close>

definition trial :: "search_env \<Rightarrow> route_oracle \<Rightarrow> search_state \<Rightarrow> search_step" where
  "trial env try_route s =
     (case width_guard env s of
        Some e \<Rightarrow> Abort e s
      | None \<Rightarrow>
          if current s * 3 < Fs env then Break (s\<lparr>final := high s\<rparr>)
          else
            let success = try_route (length (routed s)) (current s);
                s1 = s\<lparr>routed := routed s @ [current s],
                       attempt_count := attempt_count s + 1\<rparr>
            in if success \<and> \<not> Fc_clipped s1
               then Next (round_to_multiplier env (route_succeeded env s1))
               else route_failed env success s1)"

text \<open>
  The loop \<open>while (final == -1)\<close>. Nothing in the code bounds the number of passes
  from an arbitrary state, so the loop is a partial function: \<open>None\<close> stands for a
  loop that never ends, \<open>Some (Inl e)\<close> for a \<open>vpr_throw\<close>, and
  \<open>Some (Inr s)\<close> for the state in which the loop is left.
\<close>

partial_function (option) search_loop ::
  "search_env \<Rightarrow> route_oracle \<Rightarrow> search_state \<Rightarrow> (vpr_error + search_state) option"
where
  "search_loop env try_route s =
     (if final s = - 1
      then (case trial env try_route s of
              Abort e s' \<Rightarrow> Some (Inl e)
            | Break s' \<Rightarrow> Some (Inr s')
            | Next s' \<Rightarrow> search_loop env try_route s')
      else Some (Inr s))"

declare search_loop.simps [code]

text \<open>
  The states in which the loop condition is evaluated, and the states in which the loop
  is left (the condition fails, or the Fs check breaks out).
\<close>

inductive loop_reaches :: "search_env \<Rightarrow> route_oracle \<Rightarrow> search_state \<Rightarrow> bool"
  for env :: search_env and try_route :: route_oracle
where
  start: "search_init env = Inr s \<Longrightarrow> loop_reaches env try_route s"
| again: "loop_reaches env try_route s \<Longrightarrow> final s = - 1 \<Longrightarrow>
          trial env try_route s = Next s' \<Longrightarrow> loop_reaches env try_route s'"

inductive loop_exits :: "search_env \<Rightarrow> route_oracle \<Rightarrow> search_state \<Rightarrow> bool"
  for env :: search_env and try_route :: route_oracle
where
  by_condition: "loop_reaches env try_route s \<Longrightarrow> final s \<noteq> - 1 \<Longrightarrow>
                 loop_exits env try_route s"
| by_break: "loop_reaches env try_route s \<Longrightarrow> final s = - 1 \<Longrightarrow>
             trial env try_route s = Break s' \<Longrightarrow> loop_exits env try_route s'"

section \<open>The convergence verifier\<close>

text \<open>
  Lines 462 to 494: one probe of the verifier, from the call of \<open>try_route\<close> to
  the decrement of \<open>current\<close>. The result is the oracle's answer and the new state.
\<close>

definition verify_probe :: "search_env \<Rightarrow> route_oracle \<Rightarrow> search_state \<Rightarrow> bool \<times> search_state" where
  "verify_probe env try_route s =
     (let success = try_route (length (routed s)) (current s);
          s1 = s\<lparr>routed := routed s @ [current s]\<rparr>;
          s2 = (if success \<and> Fc_clipped s1 = False
                then s1\<lparr>final := current s1\<rparr> else s1);
          s3 = s2\<lparr>current := current s2 - 1\<rparr>;
          s4 = (if directionality env = UNI_DIRECTIONAL
                then s3\<lparr>current := current s3 - 1\<rparr> else s3)
      in (success, s4))"

text \<open>
  Lines 454 to 495: the loop \<open>while (prev2_success || prev_success)\<close>, entered with
  both flags true and \<open>current = final - 2\<close>. The width to probe decreases in every
  pass and the loop stops below 1, so this loop is a total function.
\<close>

function verify_loop ::
  "search_env \<Rightarrow> route_oracle \<Rightarrow> bool \<Rightarrow> bool \<Rightarrow> search_state \<Rightarrow> search_state"
where
  "verify_loop env try_route prev2_success prev_success s =
     (if prev2_success \<or> prev_success
      then
        if (case fixed_channel_width env of Some W \<Rightarrow> current s < W | None \<Rightarrow> False)
          then s
        else if current s < 1 then s
        else (case verify_probe env try_route s of
                (success, s') \<Rightarrow> verify_loop env try_route prev_success success s')
      else s)"
  by pat_completeness auto
termination
  by (relation "measure (\<lambda>(env, try_route, prev2_success, prev_success, s). nat (current s))")
     (auto simp: verify_probe_def Let_def split: if_splits)

declare verify_loop.simps [simp del]

text \<open>Lines 443 to 496.\<close>

definition verify :: "search_env \<Rightarrow> route_oracle \<Rightarrow> search_state \<Rightarrow> search_state" where
  "verify env try_route s =
     (if verify_binary_search env
      then verify_loop env try_route True True (s\<lparr>current := final s - 2\<rparr>)
      else s)"

section \<open>The channel-width distribution calculator\<close>

text \<open>
  The two comparisons of the \<open>DELTA\<close> case, \<open>val > -separation / 2.\<close> and
  \<open>val <= separation / 2.\<close>, for a finite \<open>val\<close>.
\<close>

fun above_minus_half :: "real \<Rightarrow> cfloat \<Rightarrow> bool" where
  "above_minus_half val (Finite d) = (val > - d / 2)"
| "above_minus_half val Plus_infinity = True"
| "above_minus_half val Not_a_number = False"

fun at_most_half :: "real \<Rightarrow> cfloat \<Rightarrow> bool" where
  "at_most_half val (Finite d) = (val \<le> d / 2)"
| "at_most_half val Plus_infinity = True"
| "at_most_half val Not_a_number = False"

text \<open>
  Lines 637 to 686. In the Gaussian case a zero \<open>width\<close> makes the quotient
  infinite, so that \<open>exp\<close> yields 0, or \<open>0 / 0\<close>, which is NaN.
\<close>

definition comp_width :: "t_chan \<Rightarrow> real \<Rightarrow> cfloat \<Rightarrow> vpr_error + cfloat" where
  "comp_width chan x separation =
     (if type chan = UNIFORM then Inr (Finite (peak chan))
      else if type chan = GAUSSIAN then
        (let num = (x - xpeak chan) * (x - xpeak chan);
             den = 2 * width chan * width chan
         in if den \<noteq> 0 then Inr (Finite (peak chan * exp (- (num / den)) + dc chan))
            else if num = 0 then Inr Not_a_number
            else Inr (Finite (dc chan)))
      else if type chan = PULSE then
        (let val = \<bar>x - xpeak chan\<bar>
         in Inr (Finite ((if val > width chan / 2 then 0 else peak chan) + dc chan)))
      else if type chan = DELTA then
        (let val = x - xpeak chan
         in Inr (Finite ((if above_minus_half val separation \<and> at_most_half val separation
                          then peak chan else 0) + dc chan)))
      else Inl Unknown_channel_type)"

text \<open>The kinds that \<open>comp_width\<close> knows: the four names of \<open>e_stat\<close>.\<close>

definition known_kind :: "t_chan \<Rightarrow> bool" where
  "known_kind chan \<longleftrightarrow>
     type chan = UNIFORM \<or> type chan = GAUSSIAN \<or> type chan = PULSE \<or> type chan = DELTA"

text \<open>
  \<open>(int) floor(cfactor * v + 0.5)\<close>. C++ leaves the conversion of a NaN or of an
  infinity undefined; the value here is the one the x86 conversion produces.
\<close>

definition scaled_width :: "int \<Rightarrow> cfloat \<Rightarrow> int" where
  "scaled_width cfactor v =
     (case v of Finite r \<Rightarrow> \<lfloor>real_of_int cfactor * r + 0.5\<rfloor> | _ \<Rightarrow> - (2 ^ 31))"

text \<open>\<open>1.0 / (ny - 2.0)\<close>, computed only when the extent exceeds 1.\<close>

definition channel_separation :: "nat \<Rightarrow> cfloat" where
  "channel_separation n = (if n = 2 then Plus_infinity else Finite (1 / (real n - 2)))"

text \<open>One interior entry: lines 586 and 589, or 593 and 594.\<close>

definition interior_width :: "int \<Rightarrow> t_chan \<Rightarrow> real \<Rightarrow> cfloat \<Rightarrow> vpr_error + int" where
  "interior_width cfactor chan x separation =
     (case comp_width chan x separation of
        Inl e \<Rightarrow> Inl e
      | Inr v \<Rightarrow> Inr (max (scaled_width cfactor v) 1))"

text \<open>The loop of lines 591 to 595 over the positions \<open>i = 1, ..., n - 2\<close>.\<close>

fun fill_interior ::
  "int \<Rightarrow> t_chan \<Rightarrow> nat \<Rightarrow> cfloat \<Rightarrow> nat list \<Rightarrow> int list \<Rightarrow> vpr_error + int list"
where
  "fill_interior cfactor chan n separation [] xs = Inr xs"
| "fill_interior cfactor chan n separation (i # is) xs =
     (case interior_width cfactor chan (real i / (real n - 2)) separation of
        Inl e \<Rightarrow> Inl e
      | Inr w \<Rightarrow> fill_interior cfactor chan n separation is (xs[i + 1 := w]))"

text \<open>
  The code fills \<open>x_list\<close> from \<open>ny\<close> and \<open>chan_x_dist\<close> (lines 580 and 583 to
  596) and \<open>y_list\<close> from \<open>nx\<close> and \<open>chan_y_dist\<close> (lines 581 and 598 to 609)
  by the same statements; \<open>axis_list\<close> is that text for an axis of extent \<open>n\<close>,
  whose array has the indices 0 to \<open>n\<close>.
\<close>

definition axis_list :: "int \<Rightarrow> int \<Rightarrow> t_chan \<Rightarrow> nat \<Rightarrow> vpr_error + int list" where
  "axis_list cfactor nio chan n =
     (let xs = (replicate (n + 1) 0)[0 := nio, n := nio]
      in if n > 1
         then (case interior_width cfactor chan 0 (channel_separation n) of
                 Inl e \<Rightarrow> Inl e
               | Inr w \<Rightarrow>
                   fill_interior cfactor chan n (channel_separation n) [1 ..< n - 1] (xs[1 := w]))
         else Inr xs)"

text \<open>Lines 563 to 623; \<open>INT_MIN\<close> and \<open>INT_MAX\<close> are those of a 32-bit \<open>int\<close>.\<close>

definition init_chan :: "int \<Rightarrow> t_chan_width_dist \<Rightarrow> nat \<Rightarrow> nat \<Rightarrow> vpr_error + t_chan_width" where
  "init_chan cfactor chan_width_dist nx_grid ny_grid =
     (let nio0 = \<lfloor>real_of_int cfactor * chan_width_io chan_width_dist + 0.5\<rfloor>;
          nio = (if nio0 = 0 then 1 else nio0)
      in case axis_list cfactor nio (chan_x_dist chan_width_dist) ny_grid of
           Inl e \<Rightarrow> Inl e
         | Inr xl \<Rightarrow>
            (case axis_list cfactor nio (chan_y_dist chan_width_dist) nx_grid of
               Inl e \<Rightarrow> Inl e
             | Inr yl \<Rightarrow>
                 Inr \<lparr>x_list = xl, y_list = yl,
                      max_width = fold max yl (fold max xl 0),
                      x_max = fold max xl (- (2 ^ 31)), x_min = fold min xl (2 ^ 31 - 1),
                      y_max = fold max yl (- (2 ^ 31)), y_min = fold min yl (2 ^ 31 - 1)\<rparr>))"

section \<open>The whole search and its caller\<close>

text \<open>Lines 528 to 531: the warning about the best routing.\<close>

definition report_best :: "search_state \<Rightarrow> search_state" where
  "report_best s =
     (if Fc_clipped s
      then s\<lparr>messages := messages s @ [Best_routing_clipped_warning]\<rparr> else s)"

text \<open>
  Lines 498 to 559: the channel widths are set for \<open>final\<close>; building the routing
  graph, restoring and checking the best routing are external.
\<close>

definition search_finish :: "search_env \<Rightarrow> search_state \<Rightarrow> vpr_error + search_state \<times> t_chan_width" where
  "search_finish env s =
     (case init_chan (final s) (Chans env) (nx env) (ny env) of
        Inl e \<Rightarrow> Inl e
      | Inr cw \<Rightarrow> Inr (report_best s, cw))"

definition search_run ::
  "search_env \<Rightarrow> route_oracle \<Rightarrow> (vpr_error + search_state \<times> t_chan_width) option" where
  "search_run env try_route =
     (case search_init env of
        Inl e \<Rightarrow> Some (Inl e)
      | Inr s0 \<Rightarrow>
         (case search_loop env try_route s0 of
            None \<Rightarrow> None
          | Some (Inl e) \<Rightarrow> Some (Inl e)
          | Some (Inr s) \<Rightarrow> Some (search_finish env (verify env try_route s))))"

text \<open>Lines 214 to 561: the function returns \<open>final\<close>.\<close>

definition binary_search_place_and_route ::
  "search_env \<Rightarrow> route_oracle \<Rightarrow> (vpr_error + int) option" where
  "binary_search_place_and_route env try_route =
     (case search_run env try_route of
        None \<Rightarrow> None
      | Some (Inl e) \<Rightarrow> Some (Inl e)
      | Some (Inr (s, cw)) \<Rightarrow> Some (Inr (final s)))"

text \<open>
  Lines 55 to 212, as far as the result \<open>success\<close> goes: placement, drawing and the
  output files are external.
\<close>

definition place_and_route :: "search_env \<Rightarrow> route_oracle \<Rightarrow> (vpr_error + bool) option" where
  "place_and_route env try_route =
     (if \<not> doRouting env then Some (Inr True)
      else
        (case fixed_channel_width env of
           None \<Rightarrow>
             (case binary_search_place_and_route env try_route of
                None \<Rightarrow> None
              | Some (Inl e) \<Rightarrow> Some (Inl e)
              | Some (Inr channel_width) \<Rightarrow> Some (Inr (channel_width > 0)))
         | Some width_fac \<Rightarrow>
             if directionality env = UNI_DIRECTIONAL \<and> width_fac smod 2 \<noteq> 0
             then Some (Inl Odd_chan_width_given)
             else Some (Inr (try_route 0 width_fac))))"

section \<open>States of a run\<close>

text \<open>
  Every state in which a run of \<open>binary_search_place_and_route\<close> can be observed:
  at the loop condition, after a pass through the loop body (however the pass ended),
  after the verifier, and after the final report. Both logs only grow, so the log of
  such a state holds every call and every message made up to that point.
\<close>

inductive run_state :: "search_env \<Rightarrow> route_oracle \<Rightarrow> search_state \<Rightarrow> bool"
  for env :: search_env and try_route :: route_oracle
where
  in_loop: "loop_reaches env try_route s \<Longrightarrow> run_state env try_route s"
| in_trial: "loop_reaches env try_route s \<Longrightarrow> final s = - 1 \<Longrightarrow>
             run_state env try_route (step_state (trial env try_route s))"
| verified: "loop_exits env try_route s \<Longrightarrow> run_state env try_route (verify env try_route s)"
| reported: "loop_exits env try_route s \<Longrightarrow>
             run_state env try_route (report_best (verify env try_route s))"

text \<open>
  What holds of every state in which the loop condition is evaluated, whatever the
  widths: no width is negative.
\<close>

definition search_invariant :: "search_env \<Rightarrow> search_state \<Rightarrow> bool" where
  "search_invariant env s \<longleftrightarrow>
     0 \<le> attempt_count s \<and>
     (using_minw_hint s \<and> attempt_count s = 0 \<longrightarrow> low s = - 1) \<and>
     0 \<le> current s \<and>
     (high s = - 1 \<longrightarrow> 0 < current s) \<and>
     - 1 \<le> high s \<and>
     (- 1 \<le> low s \<or> width_guard env s \<noteq> None)"

text \<open>
  The searches in which every width that passes the guard is at most \<open>2 ^ 23\<close>, so
  that the sum of two such widths converts to \<open>float\<close> exactly: every search
  without a fixed width (the guard stops at 1000), and the searches with a fixed width of
  at most \<open>2 ^ 21\<close>.
\<close>

definition exact_widths :: "search_env \<Rightarrow> bool" where
  "exact_widths env \<longleftrightarrow> (\<forall>W. fixed_channel_width env = Some W \<longrightarrow> W * 4 \<le> 2 ^ 23)"

text \<open>
  The invariant of such a search, for a state in which the loop condition holds: the
  trial width lies above a known lower bound and not above a known upper bound, and
  under bidirectional routing strictly below it.
\<close>

definition bounds_invariant :: "search_env \<Rightarrow> search_state \<Rightarrow> bool" where
  "bounds_invariant env s \<longleftrightarrow>
     (low s \<noteq> - 1 \<longrightarrow> low s < current s) \<and>
     (high s \<noteq> - 1 \<longrightarrow> current s \<le> high s \<and> high s \<le> 2 ^ 23) \<and>
     (directionality env = BI_DIRECTIONAL \<and> high s \<noteq> - 1 \<longrightarrow> current s < high s)"

section \<open>Example inputs\<close>

definition uniform_chans :: t_chan_width_dist where
  "uniform_chans =
     \<lparr>chan_width_io = 1,
      chan_x_dist = \<lparr>type = UNIFORM, peak = 1, width = 0, xpeak = 0, dc = 0\<rparr>,
      chan_y_dist = \<lparr>type = UNIFORM, peak = 1, width = 0, xpeak = 0, dc = 0\<rparr>\<rparr>"

text \<open>A bidirectional architecture whose largest block has 20 pins; no fixed width, no hint.\<close>

definition bidir_env :: search_env where
  "bidir_env =
     \<lparr>directionality = BI_DIRECTIONAL, Fs = 3, fixed_channel_width = None,
      min_chan_width_hint = - 1, verify_binary_search = True, doRouting = True,
      type_num_pins = [8, 20], Chans = uniform_chans, nx = 3, ny = 3\<rparr>"

text \<open>An oracle that routes exactly the widths from a threshold on.\<close>

definition routes_from :: "int \<Rightarrow> route_oracle" where
  "routes_from T n w = (T \<le> w)"




text \<open>An oracle on which no width routes.\<close>

definition never_routes :: route_oracle where
  "never_routes n w = False"

text \<open>An oracle on which only the first call succeeds, whatever the width.\<close>

definition routes_first_call :: route_oracle where
  "routes_first_call n w = (n = 0)"

text \<open>An oracle on which exactly the calls with the given numbers succeed.\<close>

definition routes_at_calls :: "nat list \<Rightarrow> route_oracle" where
  "routes_at_calls ns n w = (n \<in> set ns)"

text \<open>
  A unidirectional architecture whose largest block has 2 pins: the state in which its
  search starts, the state after a first successful trial at width 2, and the two
  states in which the loop is left after a second trial at width 2, which succeeds
  (\<open>uni_done\<close>) or fails (\<open>uni_refused\<close>).
\<close>

definition uni_env :: search_env where
  "uni_env =
     \<lparr>directionality = UNI_DIRECTIONAL, Fs = 3, fixed_channel_width = None,
      min_chan_width_hint = - 1, verify_binary_search = True, doRouting = True,
      type_num_pins = [2], Chans = uniform_chans, nx = 3, ny = 3\<rparr>"

definition uni_start :: search_state where
  "uni_start =
     \<lparr>current = 2, low = - 1, high = - 1, final = - 1, attempt_count = 0,
      using_minw_hint = False, Fc_clipped = False, routed = [], messages = []\<rparr>"

definition uni_second :: search_state where
  "uni_second =
     \<lparr>current = 2, low = - 1, high = 2, final = - 1, attempt_count = 1,
      using_minw_hint = False, Fc_clipped = False, routed = [2], messages = []\<rparr>"

definition uni_done :: search_state where
  "uni_done =
     \<lparr>current = 2, low = - 1, high = 2, final = 2, attempt_count = 2,
      using_minw_hint = False, Fc_clipped = False, routed = [2, 2], messages = []\<rparr>"

definition uni_refused :: search_state where
  "uni_refused =
     \<lparr>current = 2, low = 2, high = 2, final = 2, attempt_count = 2,
      using_minw_hint = False, Fc_clipped = False, routed = [2, 2], messages = []\<rparr>"

text \<open>The same architecture with the odd fixed width 7.\<close>

definition odd_env :: search_env where
  "odd_env = uni_env\<lparr>fixed_channel_width := Some 7\<rparr>"

text \<open>
  A bidirectional architecture with the fixed width 20, and the state of its search
  after \<open>k\<close> failed trials: the next width to try is \<open>25 + 5 * k\<close>.
\<close>

definition fixed_env :: search_env where
  "fixed_env = bidir_env\<lparr>fixed_channel_width := Some 20\<rparr>"

definition fixed_trial :: "nat \<Rightarrow> search_state" where
  "fixed_trial k =
     \<lparr>current = 25 + 5 * int k, low = (if k = 0 then 19 else 20 + 5 * int k),
      high = - 1, final = - 1, attempt_count = int k,
      using_minw_hint = False, Fc_clipped = False,
      routed = map (\<lambda>i. 25 + 5 * int i) [0 ..< k], messages = []\<rparr>"

text \<open>
  A bidirectional architecture with \<open>Fs = 18\<close> and the hint 5, and the state in
  which its search starts.
\<close>

definition floor_env :: search_env where
  "floor_env = bidir_env\<lparr>Fs := 18, min_chan_width_hint := 5\<rparr>"

definition floor_start :: search_state where
  "floor_start =
     \<lparr>current = 5, low = - 1, high = - 1, final = - 1, attempt_count = 0,
      using_minw_hint = True, Fc_clipped = False, routed = [], messages = []\<rparr>"

text \<open>
  The same with the hint 1500 and \<open>Fs = 6000\<close>, and the state in which its search
  starts.
\<close>

definition far_env :: search_env where
  "far_env = bidir_env\<lparr>Fs := 6000, min_chan_width_hint := 1500\<rparr>"

definition far_start :: search_state where
  "far_start =
     \<lparr>current = 1500, low = - 1, high = - 1, final = - 1, attempt_count = 0,
      using_minw_hint = True, Fc_clipped = False, routed = [], messages = []\<rparr>"

text \<open>
  A bidirectional architecture whose largest block has 2 pins: the state in which its
  search starts, the states after a success at width 2 and after a further success at
  width 1, and the state in which the loop is left when the trial at width 1 fails.
\<close>

definition small_env :: search_env where
  "small_env = bidir_env\<lparr>type_num_pins := [2]\<rparr>"

definition small_start :: search_state where
  "small_start =
     \<lparr>current = 2, low = - 1, high = - 1, final = - 1, attempt_count = 0,
      using_minw_hint = False, Fc_clipped = False, routed = [], messages = []\<rparr>"

definition small_second :: search_state where
  "small_second =
     \<lparr>current = 1, low = - 1, high = 2, final = - 1, attempt_count = 1,
      using_minw_hint = False, Fc_clipped = False, routed = [2], messages = []\<rparr>"

definition small_third :: search_state where
  "small_third =
     \<lparr>current = 0, low = - 1, high = 1, final = - 1, attempt_count = 2,
      using_minw_hint = False, Fc_clipped = False, routed = [2, 1], messages = []\<rparr>"

definition small_found :: search_state where
  "small_found =
     \<lparr>current = 1, low = 1, high = 2, final = 2, attempt_count = 2,
      using_minw_hint = False, Fc_clipped = False, routed = [2, 1], messages = []\<rparr>"

text \<open>
  A bidirectional architecture with the fixed width 20000009: the state in which its
  search starts, the state after a success at 20000014, the state after a failure at
  20000012, and the state in which the loop is left when a second trial at 20000012
  succeeds.
\<close>

definition huge_env :: search_env where
  "huge_env = bidir_env\<lparr>fixed_channel_width := Some 20000009\<rparr>"

definition huge_start :: search_state where
  "huge_start =
     \<lparr>current = 20000014, low = 20000008, high = - 1, final = - 1, attempt_count = 0,
      using_minw_hint = False, Fc_clipped = False, routed = [], messages = []\<rparr>"

definition huge_second :: search_state where
  "huge_second =
     \<lparr>current = 20000012, low = 20000008, high = 20000014, final = - 1, attempt_count = 1,
      using_minw_hint = False, Fc_clipped = False, routed = [20000014], messages = []\<rparr>"

definition huge_third :: search_state where
  "huge_third =
     \<lparr>current = 20000012, low = 20000012, high = 20000014, final = - 1, attempt_count = 2,
      using_minw_hint = False, Fc_clipped = False, routed = [20000014, 20000012],
      messages = []\<rparr>"

definition huge_done :: search_state where
  "huge_done =
     \<lparr>current = 20000012, low = 20000012, high = 20000012, final = 20000012,
      attempt_count = 3, using_minw_hint = False, Fc_clipped = False,
      routed = [20000014, 20000012, 20000012], messages = []\<rparr>"

text \<open>A bidirectional architecture none of whose block types has a pin.\<close>

definition no_pins_env :: search_env where
  "no_pins_env = bidir_env\<lparr>type_num_pins := [0]\<rparr>"

text \<open>A profile whose kind is none of the four names.\<close>

definition unknown_chan :: t_chan where
  "unknown_chan = \<lparr>type = 7, peak = 1, width = 0, xpeak = 0, dc = 0\<rparr>"

text \<open>The uniform distribution with a negative relative width of the I/O channels.\<close>

definition negative_io_chans :: t_chan_width_dist where
  "negative_io_chans = uniform_chans\<lparr>chan_width_io := - 1\<rparr>"

text \<open>The architecture \<open>floor_env\<close> with a row profile of unknown kind.\<close>

definition unknown_kind_env :: search_env where
  "unknown_kind_env = floor_env\<lparr>Chans := uniform_chans\<lparr>chan_x_dist := unknown_chan\<rparr>\<rparr>"

section \<open>Arithmetic lemmas\<close>

lemma round_half_even_of_int: "round_half_even (of_int k) = k"
  by (simp add: round_half_even_def)

lemma round_half_even_error: "\<bar>of_int (round_half_even r) - r\<bar> \<le> 1 / 2"
  unfolding round_half_even_def Let_def by (auto simp: abs_if) linarith+

lemma round_half_even_nonneg: "0 \<le> r \<Longrightarrow> 0 \<le> round_half_even r"
  unfolding round_half_even_def Let_def by (auto simp: zero_le_floor) 

lemma floor_log2_eq:
  assumes "2 powr of_int e \<le> x" "x < 2 powr (of_int e + 1)"
  shows "\<lfloor>log 2 x\<rfloor> = e"
proof -
  have pos: "0 < x" using assms(1) powr_gt_zero [of 2 "of_int e"] by linarith
  have "of_int e \<le> log 2 x" using assms(1) pos by (simp add: le_log_iff)
  moreover have "log 2 x < of_int e + 1" using assms(2) pos by (simp add: log_less_iff)
  ultimately show ?thesis by (simp add: floor_unique)
qed

lemma powr_of_nonneg_int: "0 \<le> k \<Longrightarrow> (2 :: real) powr of_int k = 2 ^ nat k"
  using powr_realpow [of 2 "nat k"] by simp

lemma pow2_powr: "pow2 e = 2 powr of_int e"
proof (cases "0 \<le> e")
  case True
  then show ?thesis by (simp add: pow2_def powr_of_nonneg_int)
next
  case False
  then have "(2 :: real) powr of_int e = 1 / 2 powr of_int (- e)" by (simp add: powr_minus field_simps)
  also have "2 powr of_int (- e) = (2 :: real) ^ nat (- e)"
    using False powr_of_nonneg_int [of "- e"] by simp
  finally show ?thesis using False by (simp add: pow2_def)
qed

lemma float_exponent_log:
  assumes "x \<noteq> 0"
  shows "float_exponent x = \<lfloor>log 2 \<bar>x\<bar>\<rfloor>"
proof (cases "1 \<le> \<bar>x\<bar>")
  case True
  define k where "k = \<lfloor>log 2 \<bar>x\<bar>\<rfloor>"
  have k0: "0 \<le> k" unfolding k_def using True by (simp add: zero_le_log_cancel_iff)
  have lo: "2 powr of_int k \<le> \<bar>x\<bar>"
  proof -
    have "2 powr of_int k \<le> 2 powr (log 2 \<bar>x\<bar>)" unfolding k_def by (intro powr_mono) simp_all
    then show ?thesis using True by simp
  qed
  have hi: "\<bar>x\<bar> < 2 powr (of_int k + 1)"
  proof -
    have "log 2 \<bar>x\<bar> < of_int k + 1" unfolding k_def by linarith
    then have "2 powr (log 2 \<bar>x\<bar>) < 2 powr (of_int k + 1)" by (intro powr_less_mono) simp_all
    then show ?thesis using True by simp
  qed
  have p: "(2 :: real) powr of_int k = of_int (2 ^ nat k)" using k0 by (simp add: powr_of_nonneg_int)
  have "of_int (2 ^ nat k) \<le> \<bar>x\<bar>" using lo p by simp
  then have "2 ^ nat k \<le> \<lfloor>\<bar>x\<bar>\<rfloor>" by (simp only: le_floor_iff)
  then have lo': "(2 :: real) powr of_int k \<le> of_int \<lfloor>\<bar>x\<bar>\<rfloor>" unfolding p by (simp only: of_int_le_iff)
  have hi': "real_of_int \<lfloor>\<bar>x\<bar>\<rfloor> < 2 powr (of_int k + 1)" using hi by linarith
  have pos: "0 < \<lfloor>\<bar>x\<bar>\<rfloor>" using True by simp
  have "\<lfloor>log 2 (of_int \<lfloor>\<bar>x\<bar>\<rfloor>)\<rfloor> = k" using lo' hi' by (rule floor_log2_eq)
  then show ?thesis using True pos by (simp add: float_exponent_def bitlen_alt_def k_def)
next
  case False
  define y where "y = 1 / \<bar>x\<bar>"
  have y1: "1 < y" using False assms by (simp add: y_def)
  define j where "j = \<lceil>log 2 y\<rceil>"
  have "0 < log 2 y" using y1 by simp
  then have j1: "1 \<le> j" unfolding j_def by linarith
  have hi: "y \<le> 2 powr of_int j"
  proof -
    have "log 2 y \<le> of_int j" unfolding j_def by linarith
    then have "2 powr (log 2 y) \<le> 2 powr of_int j" by (intro powr_mono) simp_all
    then show ?thesis using y1 by simp
  qed
  have lo: "2 powr (of_int j - 1) < y"
  proof -
    have "of_int j - 1 < log 2 y" unfolding j_def by linarith
    then have "2 powr (of_int j - 1) < 2 powr (log 2 y)" by (intro powr_less_mono) simp_all
    then show ?thesis using y1 by simp
  qed
  have pj: "(2 :: real) powr of_int j = of_int (2 ^ nat j)" using j1 by (simp add: powr_of_nonneg_int)
  have pj1: "(2 :: real) powr (of_int j - 1) = of_int (2 ^ nat (j - 1))"
    using j1 powr_of_nonneg_int [of "j - 1"] by simp
  have "\<lceil>y\<rceil> \<le> 2 ^ nat j" using hi pj by (simp add: ceiling_le_iff)
  moreover have "2 ^ nat (j - 1) < \<lceil>y\<rceil>" using lo pj1 by (simp add: less_ceiling_iff)
  moreover have dbl: "(2 :: int) ^ nat j = 2 * 2 ^ nat (j - 1)"
  proof -
    have "nat j = Suc (nat (j - 1))" using j1 by simp
    then show ?thesis by simp
  qed
  ultimately have b: "2 ^ nat (j - 1) \<le> \<lceil>y\<rceil> - 1" "\<lceil>y\<rceil> - 1 < 2 * 2 ^ nat (j - 1)" by simp_all
  have b1: "(2 :: real) powr of_int (j - 1) \<le> of_int (\<lceil>y\<rceil> - 1)"
  proof -
    have "real_of_int (2 ^ nat (j - 1)) \<le> of_int (\<lceil>y\<rceil> - 1)" using b(1) by (simp only: of_int_le_iff)
    moreover have "(2 :: real) powr of_int (j - 1) = 2 powr (of_int j - 1)" by simp
    ultimately show ?thesis using pj1 by simp
  qed
  have b2: "real_of_int (\<lceil>y\<rceil> - 1) < 2 powr (of_int (j - 1) + 1)"
  proof -
    have "real_of_int (\<lceil>y\<rceil> - 1) < of_int (2 * 2 ^ nat (j - 1))" using b(2) by (simp only: of_int_less_iff)
    also have "\<dots> = of_int (2 ^ nat j)" using dbl by simp
    also have "\<dots> = 2 powr of_int j" using pj by simp
    also have "\<dots> = 2 powr (of_int (j - 1) + 1)" by simp
    finally show ?thesis .
  qed
  have "\<lfloor>log 2 (of_int (\<lceil>y\<rceil> - 1))\<rfloor> = j - 1" using b1 b2 by (rule floor_log2_eq)
  moreover have "0 < \<lceil>y\<rceil> - 1" using y1 by simp
  ultimately have bl: "bitlen (\<lceil>y\<rceil> - 1) = j" by (simp add: bitlen_alt_def)
  have "log 2 \<bar>x\<bar> = - log 2 y" using assms by (simp add: y_def log_divide)
  then have "\<lfloor>log 2 \<bar>x\<bar>\<rfloor> = - j" unfolding j_def by (simp add: ceiling_def)
  then show ?thesis using False bl by (simp add: float_exponent_def y_def)
qed

lemma to_float_log:
  "to_float x =
     (if x = 0 then 0
      else let ulp = 2 powr (of_int \<lfloor>log 2 \<bar>x\<bar>\<rfloor> - 23)
           in of_int (round_half_even (x / ulp)) * ulp)"
  by (simp add: to_float_def Let_def pow2_powr float_exponent_log)

lemma to_float_binade:
  assumes "2 powr of_int e \<le> \<bar>x\<bar>" "\<bar>x\<bar> < 2 powr (of_int e + 1)"
  shows "to_float x = of_int (round_half_even (x / 2 powr (of_int e - 23))) * 2 powr (of_int e - 23)"
proof -
  have "x \<noteq> 0" using assms(1) powr_gt_zero [of 2 "of_int e"] by auto
  then show ?thesis using floor_log2_eq [OF assms] by (simp add: to_float_log Let_def)
qed

lemma to_float_nat_binade:
  assumes "2 ^ k \<le> \<bar>x\<bar>" "\<bar>x\<bar> < 2 ^ Suc k"
  shows "to_float x = of_int (round_half_even (x * 2 ^ 23 / 2 ^ k)) * 2 ^ k / 2 ^ 23"
proof -
  have 1: "2 powr of_int (int k) \<le> \<bar>x\<bar>" using assms(1) by (simp add: powr_realpow)
  have 2: "\<bar>x\<bar> < 2 powr (of_int (int k) + 1)"
    using assms(2) by (simp add: powr_add powr_realpow)
  have u: "2 powr (of_int (int k) - 23) = (2 :: real) ^ k / 2 ^ 23"
    by (simp add: powr_diff powr_realpow)
  show ?thesis unfolding to_float_binade [OF 1 2] u by simp
qed

lemma to_float_error: "\<bar>to_float x - x\<bar> \<le> \<bar>x\<bar> / 2 ^ 24"
proof (cases "x = 0")
  case True
  then show ?thesis by (simp add: to_float_log)
next
  case False
  define e where "e = \<lfloor>log 2 \<bar>x\<bar>\<rfloor>"
  define u :: real where "u = 2 powr (of_int e - 23)"
  have upos: "0 < u" by (simp add: u_def)
  have "2 powr of_int e \<le> 2 powr (log 2 \<bar>x\<bar>)" unfolding e_def by (intro powr_mono) simp_all
  then have le: "2 powr of_int e \<le> \<bar>x\<bar>" using False by simp
  have "u = 2 powr of_int e / 2 ^ 23" by (simp add: u_def powr_diff)
  then have ule: "u \<le> \<bar>x\<bar> / 2 ^ 23" using le by (simp add: divide_right_mono)
  have tf: "to_float x = of_int (round_half_even (x / u)) * u"
    using False by (simp add: to_float_log Let_def u_def e_def)
  have "to_float x - x = (of_int (round_half_even (x / u)) - x / u) * u"
    using upos by (simp add: tf field_simps)
  then have "\<bar>to_float x - x\<bar> = \<bar>of_int (round_half_even (x / u)) - x / u\<bar> * u"
    using upos by (simp add: abs_mult)
  also have "\<dots> \<le> 1 / 2 * u"
    using round_half_even_error [of "x / u"] upos by (intro mult_right_mono) simp_all
  also have "\<dots> \<le> \<bar>x\<bar> / 2 ^ 24" using ule by simp
  finally show ?thesis .
qed

lemma to_float_nonneg: "0 \<le> x \<Longrightarrow> 0 \<le> to_float x"
  by (auto simp: to_float_log Let_def intro!: mult_nonneg_nonneg round_half_even_nonneg)


lemma to_float_exact_strict:
  assumes "\<bar>m\<bar> < 2 ^ 24"
  shows "to_float (of_int m * 2 powr of_int k) = of_int m * 2 powr of_int k"
proof (cases "m = 0")
  case True
  then show ?thesis by (simp add: to_float_log)
next
  case False
  define j where "j = \<lfloor>log 2 \<bar>real_of_int m\<bar>\<rfloor>"
  have "1 \<le> \<bar>m\<bar>" using False by simp
  then have "1 \<le> real_of_int \<bar>m\<bar>" by linarith
  then have m1: "1 \<le> \<bar>real_of_int m\<bar>" by simp
  have j0: "0 \<le> j" unfolding j_def using m1 by (simp add: zero_le_log_cancel_iff)
  have "log 2 \<bar>real_of_int m\<bar> < 24"
  proof -
    have "\<bar>real_of_int m\<bar> < 2 ^ 24" using assms by (simp flip: of_int_abs add: of_int_less_numeral_power_cancel_iff)
    then have "\<bar>real_of_int m\<bar> < 2 powr 24" by simp
    then show ?thesis using m1 by (simp add: log_less_iff)
  qed
  then have j23: "j \<le> 23" unfolding j_def by (simp add: floor_le_iff)
  have lo: "2 powr of_int j \<le> \<bar>real_of_int m\<bar>"
  proof -
    have "2 powr of_int j \<le> 2 powr (log 2 \<bar>real_of_int m\<bar>)"
      unfolding j_def by (intro powr_mono) simp_all
    then show ?thesis using m1 by simp
  qed
  have hi: "\<bar>real_of_int m\<bar> < 2 powr (of_int j + 1)"
  proof -
    have "log 2 \<bar>real_of_int m\<bar> < of_int j + 1" unfolding j_def by linarith
    then have "2 powr (log 2 \<bar>real_of_int m\<bar>) < 2 powr (of_int j + 1)" by (intro powr_less_mono) simp_all
    then show ?thesis using m1 by simp
  qed
  define x :: real where "x = of_int m * 2 powr of_int k"
  have ax: "\<bar>x\<bar> = \<bar>real_of_int m\<bar> * 2 powr of_int k" by (simp add: x_def abs_mult)
  have 1: "2 powr of_int (j + k) \<le> \<bar>x\<bar>"
    using lo by (simp add: ax powr_add mult_right_mono)
  have 2: "\<bar>x\<bar> < 2 powr (of_int (j + k) + 1)"
  proof -
    have "\<bar>real_of_int m\<bar> * 2 powr of_int k < 2 powr (of_int j + 1) * 2 powr of_int k"
      using hi by (intro mult_strict_right_mono) simp_all
    then show ?thesis by (simp add: ax powr_add mult_ac)
  qed
  have q: "x / 2 powr (of_int (j + k) - 23) = of_int (m * 2 ^ nat (23 - j))"
  proof -
    have "x / 2 powr (of_int (j + k) - 23) = of_int m * 2 powr (of_int k - (of_int (j + k) - 23))"
      by (simp add: x_def powr_diff powr_add field_simps)
    also have "of_int k - (of_int (j + k) - 23) = (real (nat (23 - j)))" using j23 by simp
    also have "of_int m * 2 powr (real (nat (23 - j))) = of_int (m * 2 ^ nat (23 - j))"
      by (simp add: powr_realpow)
    finally show ?thesis .
  qed
  have "to_float x = of_int (m * 2 ^ nat (23 - j)) * 2 powr (of_int (j + k) - 23)"
    unfolding to_float_binade [OF 1 2] q round_half_even_of_int ..
  also have "\<dots> = x * (2 powr (real (nat (23 - j))) * 2 powr (of_int (j + k) - 23) / 2 powr of_int k)"
    by (simp add: x_def powr_realpow)
  also have "2 powr (real (nat (23 - j))) * 2 powr (of_int (j + k) - 23) / 2 powr of_int k = (1 :: real)"
    using j23 by (simp flip: powr_add powr_diff)
  finally show ?thesis by (simp add: x_def)
qed

lemma to_float_exact:
  assumes "\<bar>m\<bar> \<le> 2 ^ 24"
  shows "to_float (of_int m * 2 powr of_int k) = of_int m * 2 powr of_int k"
proof (cases "\<bar>m\<bar> < 2 ^ 24")
  case True
  then show ?thesis by (rule to_float_exact_strict)
next
  case False
  then have "m = 2 ^ 24 \<or> m = - (2 ^ 24)" using assms by auto
  then have m: "real_of_int m = of_int (m div 2) * 2" and small: "\<bar>m div 2\<bar> < 2 ^ 24" by auto
  have "real_of_int m * 2 powr of_int k = of_int (m div 2) * 2 powr of_int (k + 1)"
    by (simp add: m powr_add)
  then show ?thesis using to_float_exact_strict [OF small, of "k + 1"] by simp
qed

lemma to_float_of_int: "\<bar>n\<bar> \<le> 2 ^ 24 \<Longrightarrow> to_float (of_int n) = of_int n"
  using to_float_exact [of n 0] by simp

lemma to_float_half: "\<bar>n\<bar> \<le> 2 ^ 24 \<Longrightarrow> to_float (of_int n / 2) = of_int n / 2"
  using to_float_exact [of n "- 1"] by (simp add: powr_minus field_simps)

lemma int_of_float_half: "int_of_float (real_of_int n / 2) = n sdiv 2"
proof (cases "0 \<le> n")
  case True
  then show ?thesis
    using floor_divide_of_int_eq [of n 2, where ?'a = real]
    by (simp add: int_of_float_def signed_divide_int_def sgn_if)
next
  case False
  have "\<lfloor>real_of_int (- n) / real_of_int 2\<rfloor> = (- n) div 2" by (rule floor_divide_of_int_eq)
  then show ?thesis using False
    by (simp add: int_of_float_def signed_divide_int_def sgn_if ceiling_def)
qed

lemma halve_exact:
  "\<bar>n\<bar> \<le> 2 ^ 24 \<Longrightarrow> int_of_float (float_div (float_of_int n) 2) = n sdiv 2"
  by (simp add: float_div_def float_of_int_def to_float_of_int to_float_half int_of_float_half)

lemma int_of_float_of_int: "int_of_float (of_int n) = n"
  by (simp add: int_of_float_def)

lemma double_exact:
  assumes "\<bar>n\<bar> \<le> 2 ^ 23"
  shows "int_of_float (float_mul (float_of_int n) 2) = 2 * n"
proof -
  have 1: "to_float (real_of_int n) = of_int n" using assms by (intro to_float_of_int) simp
  have 2: "to_float (real_of_int (2 * n)) = of_int (2 * n)" using assms by (intro to_float_of_int) simp
  have e: "real_of_int n * 2 = of_int (2 * n)" by simp
  show ?thesis unfolding float_mul_def float_of_int_def 1 e 2 by (rule int_of_float_of_int)
qed

lemma int_of_float_nonneg: "0 \<le> r \<Longrightarrow> 0 \<le> int_of_float r"
  by (simp add: int_of_float_def)

lemma quotient_nonneg:
  "0 \<le> n \<Longrightarrow> 0 < scale_factor \<Longrightarrow> 0 \<le> int_of_float (float_div (float_of_int n) scale_factor)"
  unfolding float_div_def float_of_int_def
  by (intro int_of_float_nonneg to_float_nonneg divide_nonneg_pos) simp_all

lemma hint_factor_bounds: "1.09 < to_float 1.1" "to_float 1.1 < 1.11"
  using to_float_error [of "1.1"] by (simp_all add: abs_if split: if_splits)

lemma hint_quotient_less:
  assumes "0 < n" "n \<le> 2 ^ 24"
  shows "int_of_float (float_div (float_of_int n) (to_float 1.1)) < n"
proof -
  define q where "q = real_of_int n / to_float 1.1"
  have n: "0 < real_of_int n" using assms by simp
  have "q < real_of_int n / 1.09" unfolding q_def
    using hint_factor_bounds(1) n by (intro divide_strict_left_mono) simp_all
  moreover have q0: "0 < q" unfolding q_def using hint_factor_bounds(1) n by simp
  moreover have "to_float q \<le> q + q / 2 ^ 24"
    using to_float_error [of q] q0 by (simp add: abs_if split: if_splits)
  ultimately have lt: "to_float q < real_of_int n" by simp
  have "0 \<le> to_float q" using q0 by (intro to_float_nonneg) simp
  then have "real_of_int (int_of_float (to_float q)) \<le> to_float q" by (simp add: int_of_float_def)
  then have "real_of_int (int_of_float (to_float q)) < real_of_int n" using lt by linarith
  then show ?thesis using assms by (simp add: float_div_def float_of_int_def to_float_of_int q_def)
qed

lemma halve_huge:
  assumes "2 ^ 25 \<le> n" "n < 2 ^ 26"
  shows "int_of_float (float_div (float_of_int n) 2) = round_half_even (real_of_int n / 4) * 2"
proof -
  have 1: "(2 :: real) ^ 25 \<le> \<bar>real_of_int n\<bar>" using assms by (simp flip: of_int_abs)
  have 2: "\<bar>real_of_int n\<bar> < 2 ^ Suc 25" using assms by (simp flip: of_int_abs)
  define r where "r = round_half_even (real_of_int n / 4)"
  have f: "to_float (real_of_int n) = of_int r * 4"
    using to_float_nat_binade [OF 1 2] by (simp add: r_def)
  have "\<bar>of_int r - real_of_int n / 4\<bar> \<le> 1 / 2" unfolding r_def by (rule round_half_even_error)
  then have "0 \<le> r" "r \<le> 2 ^ 24" using assms by (auto simp: abs_if split: if_splits)
  then have "\<bar>r\<bar> \<le> 2 ^ 24" by simp
  then have "to_float (of_int r * 2 powr of_int 1) = of_int r * 2 powr of_int 1" by (rule to_float_exact)
  then have "to_float (of_int r * 4 / 2) = of_int (r * 2)" by (simp add: mult.commute)
  then show ?thesis
    by (simp add: float_div_def float_of_int_def f int_of_float_of_int del: of_int_mult flip: r_def)
qed

lemma smod_two: "(c::int) smod 2 = (if even c then 0 else if 0 < c then 1 else - 1)"
  by (auto simp: signed_modulo_int_def sgn_if abs_if mod_2_eq_odd split: if_splits)

lemma smod_one: "(c::int) smod 1 = 0"
  by (simp add: signed_modulo_int_def)

lemma sdiv_two: "(n::int) sdiv 2 = (if 0 \<le> n then n div 2 else - ((- n) div 2))"
  by (simp add: signed_divide_int_def sgn_if)

lemma next_between:
  fixes h l m :: int
  assumes "m = 1 \<or> m = 2" "m < h - l"
  defines "c \<equiv> (h + l) sdiv 2"
  shows "l < c + c smod m \<and> c + c smod m < h \<and> (c + c smod m) smod m = 0"
  using assms unfolding c_def sdiv_two
  by (auto simp: smod_two smod_one split: if_splits; presburger)

lemma udsd_multiplier_cases: "udsd_multiplier env = 1 \<or> udsd_multiplier env = 2"
  by (simp add: udsd_multiplier_def)

lemmas trial_eval = trial_def width_guard_def route_succeeded_def route_failed_def
  round_to_multiplier_def udsd_multiplier_def Let_def halve_exact double_exact
  signed_divide_int_def signed_modulo_int_def

section \<open>The verifier\<close>

lemma verify_probe_fields:
  "fst (verify_probe env orc s) = orc (length (routed s)) (current s)"
  "routed (snd (verify_probe env orc s)) = routed s @ [current s]"
  "current (snd (verify_probe env orc s)) =
     (if directionality env = UNI_DIRECTIONAL then current s - 2 else current s - 1)"
  "final (snd (verify_probe env orc s)) =
     (if orc (length (routed s)) (current s) \<and> \<not> Fc_clipped s then current s else final s)"
  "Fc_clipped (snd (verify_probe env orc s)) = Fc_clipped s"
  "messages (snd (verify_probe env orc s)) = messages s"
  by (simp_all add: verify_probe_def Let_def)

lemma verify_loop_stop:
  "\<not> (p2 \<or> p) \<or> (case fixed_channel_width env of Some W \<Rightarrow> current s < W | None \<Rightarrow> False)
     \<or> current s < 1 \<Longrightarrow> verify_loop env orc p2 p s = s"
  by (subst verify_loop.simps) auto

lemma verify_loop_probe:
  "p2 \<or> p \<Longrightarrow> \<not> (case fixed_channel_width env of Some W \<Rightarrow> current s < W | None \<Rightarrow> False)
     \<Longrightarrow> \<not> current s < 1 \<Longrightarrow>
   verify_loop env orc p2 p s
     = verify_loop env orc p (fst (verify_probe env orc s)) (snd (verify_probe env orc s))"
  by (subst verify_loop.simps) (simp split: prod.splits)

lemma verify_loop_routed:
  "\<exists>ws. routed (verify_loop env orc p2 p s) = routed s @ ws \<and> (\<forall>w\<in>set ws. w \<le> current s)"
proof (induction env orc p2 p s rule: verify_loop.induct)
  case (1 env orc p2 p s)
  show ?case
  proof (cases "(p2 \<or> p) \<and> \<not> (case fixed_channel_width env of Some W \<Rightarrow> current s < W | None \<Rightarrow> False) \<and> \<not> current s < 1")
    case False
    then show ?thesis by (simp add: verify_loop_stop)
  next
    case True
    then have eq: "verify_loop env orc p2 p s
      = verify_loop env orc p (fst (verify_probe env orc s)) (snd (verify_probe env orc s))"
      by (simp add: verify_loop_probe)
    from True 1 [OF _ _ _ prod.collapse]
    obtain ws where
      ws: "routed (verify_loop env orc p2 p s) = (routed s @ [current s]) @ ws"
        "\<forall>w\<in>set ws. w \<le> current (snd (verify_probe env orc s))"
      unfolding eq by (auto simp: verify_probe_fields)
    have "routed (verify_loop env orc p2 p s) = routed s @ (current s # ws)" using ws by simp
    moreover have "\<forall>w\<in>set (current s # ws). w \<le> current s"
      using ws(2) by (auto simp: verify_probe_fields split: if_splits)
    ultimately show ?thesis by blast
  qed
qed


lemma verify_loop_flags:
  "Fc_clipped (verify_loop env orc p2 p s) = Fc_clipped s \<and>
   messages (verify_loop env orc p2 p s) = messages s"
proof (induction env orc p2 p s rule: verify_loop.induct)
  case (1 env orc p2 p s)
  show ?case
  proof (cases "(p2 \<or> p) \<and> \<not> (case fixed_channel_width env of Some W \<Rightarrow> current s < W | None \<Rightarrow> False) \<and> \<not> current s < 1")
    case False
    then show ?thesis by (simp add: verify_loop_stop)
  next
    case True
    then show ?thesis
      using 1 [OF _ _ _ prod.collapse] by (simp add: verify_loop_probe verify_probe_fields)
  qed
qed

lemma verify_loop_even:
  assumes "directionality env = UNI_DIRECTIONAL" "even (current s) \<or> current s < 1"
    "\<forall>w\<in>set (routed s). even w"
  shows "\<forall>w\<in>set (routed (verify_loop env orc p2 p s)). even w"
  using assms
proof (induction env orc p2 p s rule: verify_loop.induct)
  case (1 env orc p2 p s)
  show ?case
  proof (cases "(p2 \<or> p) \<and> \<not> (case fixed_channel_width env of Some W \<Rightarrow> current s < W | None \<Rightarrow> False) \<and> \<not> current s < 1")
    case False
    then show ?thesis using 1(4) by (simp add: verify_loop_stop)
  next
    case True
    then have ev: "even (current s)" using 1(3) by auto
    show ?thesis
      using True 1(1) [OF _ _ _ prod.collapse] 1(2,4) ev
      by (simp add: verify_loop_probe verify_probe_fields)
  qed
qed








section \<open>Runs on the example inputs\<close>

lemmas init_eval = search_init_def initial_guess_def max_pins_per_clb_def Let_def
  udsd_multiplier_def signed_modulo_int_def

lemma uni_env_start: "search_init uni_env = Inr uni_start"
  by (simp add: init_eval uni_env_def uni_start_def)

lemma uni_first_trial: "orc 0 2 \<Longrightarrow> trial uni_env orc uni_start = Next uni_second"
  by (simp add: trial_eval uni_env_def uni_start_def uni_second_def)

lemma uni_second_reached: "orc 0 2 \<Longrightarrow> loop_reaches uni_env orc uni_second"
proof -
  assume "orc 0 2"
  then have "trial uni_env orc uni_start = Next uni_second" by (rule uni_first_trial)
  moreover have "final uni_start = - 1" by (simp add: uni_start_def)
  moreover have "loop_reaches uni_env orc uni_start"
    using uni_env_start by (rule loop_reaches.start)
  ultimately show ?thesis using loop_reaches.again by blast
qed

lemma uni_second_trial:
  "trial uni_env orc uni_second = Next (if orc 1 2 then uni_done else uni_refused)"
  by (simp add: trial_eval uni_env_def uni_second_def uni_done_def uni_refused_def)

lemma floor_env_start: "search_init floor_env = Inr floor_start"
  by (simp add: init_eval floor_env_def bidir_env_def floor_start_def)

lemma fixed_env_start: "search_init fixed_env = Inr (fixed_trial 0)"
  by (simp add: init_eval fixed_env_def bidir_env_def fixed_trial_def)

lemma fixed_env_trial:
  "k < 5 \<Longrightarrow> trial fixed_env never_routes (fixed_trial k) = Next (fixed_trial (Suc k))"
  by (simp add: trial_eval fixed_env_def bidir_env_def fixed_trial_def never_routes_def)

lemma fixed_env_reaches: "k \<le> 5 \<Longrightarrow> loop_reaches fixed_env never_routes (fixed_trial k)"
proof (induction k)
  case 0
  show ?case using fixed_env_start by (rule loop_reaches.start)
next
  case (Suc k)
  then have "loop_reaches fixed_env never_routes (fixed_trial k)" by simp
  moreover have "final (fixed_trial k) = - 1" by (simp add: fixed_trial_def)
  moreover have "trial fixed_env never_routes (fixed_trial k) = Next (fixed_trial (Suc k))"
    using Suc.prems by (simp add: fixed_env_trial)
  ultimately show ?case using loop_reaches.again by blast
qed

lemma uni_done_reached: "loop_reaches uni_env (routes_from 0) uni_done"
proof -
  have "loop_reaches uni_env (routes_from 0) uni_second"
    by (simp add: uni_second_reached routes_from_def)
  moreover have "final uni_second = - 1" by (simp add: uni_second_def)
  moreover have "trial uni_env (routes_from 0) uni_second = Next uni_done"
    by (simp add: uni_second_trial routes_from_def)
  ultimately show ?thesis using loop_reaches.again by blast
qed

lemma far_env_start: "search_init far_env = Inr far_start"
  by (simp add: init_eval far_env_def bidir_env_def far_start_def)

lemma small_env_start: "search_init small_env = Inr small_start"
  by (simp add: init_eval small_env_def bidir_env_def small_start_def)

lemma small_first_trial: "orc 0 2 \<Longrightarrow> trial small_env orc small_start = Next small_second"
  by (simp add: trial_eval small_env_def bidir_env_def small_start_def small_second_def)

lemma small_second_trial:
  "trial small_env orc small_second = Next (if orc 1 1 then small_third else small_found)"
  by (simp add: trial_eval small_env_def bidir_env_def small_second_def small_third_def
      small_found_def)

lemma small_second_reached: "orc 0 2 \<Longrightarrow> loop_reaches small_env orc small_second"
proof -
  assume "orc 0 2"
  then have "trial small_env orc small_start = Next small_second" by (rule small_first_trial)
  moreover have "final small_start = - 1" by (simp add: small_start_def)
  moreover have "loop_reaches small_env orc small_start"
    using small_env_start by (rule loop_reaches.start)
  ultimately show ?thesis using loop_reaches.again by blast
qed

lemma small_third_reached:
  assumes "orc 0 2" "orc 1 1"
  shows "loop_reaches small_env orc small_third"
proof -
  have "loop_reaches small_env orc small_second" using assms(1) by (rule small_second_reached)
  moreover have "final small_second = - 1" by (simp add: small_second_def)
  moreover have "trial small_env orc small_second = Next small_third"
    using assms(2) by (simp add: small_second_trial)
  ultimately show ?thesis using loop_reaches.again by blast
qed

lemma huge_env_start: "search_init huge_env = Inr huge_start"
  by (simp add: init_eval huge_env_def bidir_env_def huge_start_def)

lemma huge_first_trial:
  "orc 0 20000014 \<Longrightarrow> trial huge_env orc huge_start = Next huge_second"
  by (simp add: trial_eval halve_huge round_half_even_def huge_env_def bidir_env_def
      huge_start_def huge_second_def)

lemma huge_second_trial:
  "\<not> orc 1 20000012 \<Longrightarrow> trial huge_env orc huge_second = Next huge_third"
  by (simp add: trial_eval halve_huge round_half_even_def huge_env_def bidir_env_def
      huge_second_def huge_third_def)

lemma huge_third_trial:
  "orc 2 20000012 \<Longrightarrow> trial huge_env orc huge_third = Next huge_done"
  by (simp add: trial_eval halve_huge round_half_even_def huge_env_def bidir_env_def
      huge_third_def huge_done_def numeral_2_eq_2)

lemma huge_third_reached:
  assumes "orc 0 20000014" "\<not> orc 1 20000012"
  shows "loop_reaches huge_env orc huge_third"
proof -
  have "loop_reaches huge_env orc huge_start" using huge_env_start by (rule loop_reaches.start)
  moreover have "final huge_start = - 1" by (simp add: huge_start_def)
  moreover have "trial huge_env orc huge_start = Next huge_second"
    using assms(1) by (rule huge_first_trial)
  ultimately have "loop_reaches huge_env orc huge_second" using loop_reaches.again by blast
  moreover have "final huge_second = - 1" by (simp add: huge_second_def)
  moreover have "trial huge_env orc huge_second = Next huge_third"
    using assms(2) by (rule huge_second_trial)
  ultimately show ?thesis using loop_reaches.again by blast
qed

section \<open>Invariants of the search loop\<close>

lemma trial_keeps_flag:
  "Fc_clipped (step_state (trial env orc s)) = Fc_clipped s"
  "using_minw_hint (step_state (trial env orc s)) = using_minw_hint s"
  by (auto simp: trial_def route_succeeded_def route_failed_def round_to_multiplier_def Let_def
      split: option.splits if_splits)

lemma trial_messages:
  "\<not> Fc_clipped s \<Longrightarrow> messages (step_state (trial env orc s)) = messages s"
  by (auto simp: trial_def route_succeeded_def route_failed_def round_to_multiplier_def Let_def
      split: option.splits if_splits)

lemma search_init_flags:
  "search_init env = Inr s \<Longrightarrow>
     \<not> Fc_clipped s \<and> messages s = [] \<and> routed s = [] \<and> final s = - 1 \<and> high s = - 1
     \<and> attempt_count s = 0"
  by (auto simp: search_init_def initial_guess_def Let_def split: if_splits option.splits)

lemma loop_reaches_flags:
  "loop_reaches env orc s \<Longrightarrow> \<not> Fc_clipped s \<and> messages s = []"
proof (induction rule: loop_reaches.induct)
  case (start s)
  then show ?case by (simp add: search_init_flags)
next
  case (again s s')
  then show ?case
    using trial_keeps_flag(1) [of env orc s] trial_messages [of s env orc] by simp
qed


lemma search_init_invariant:
  "search_init env = Inr s \<Longrightarrow> search_invariant env s"
  by (auto simp: search_init_def initial_guess_def Let_def search_invariant_def width_guard_def
      udsd_multiplier_def split: if_splits option.splits)

lemma search_init_bounds:
  "search_init env = Inr s \<Longrightarrow> bounds_invariant env s"
  by (auto simp: search_init_def initial_guess_def Let_def bounds_invariant_def
      udsd_multiplier_def split: if_splits option.splits)

lemma guard_bound:
  "exact_widths env \<Longrightarrow> width_guard env s = None \<Longrightarrow> current s \<le> 2 ^ 23"
  by (auto simp: exact_widths_def width_guard_def split: option.splits if_splits)

lemma trial_NextD:
  assumes "trial env orc s = Next s'"
  shows "width_guard env s = None" and "\<not> current s * 3 < Fs env"
    and "orc (length (routed s)) (current s) \<and> \<not> Fc_clipped s \<Longrightarrow>
           s' = round_to_multiplier env (route_succeeded env
                  (s\<lparr>routed := routed s @ [current s], attempt_count := attempt_count s + 1\<rparr>))"
    and "\<not> (orc (length (routed s)) (current s) \<and> \<not> Fc_clipped s) \<Longrightarrow>
           route_failed env (orc (length (routed s)) (current s))
             (s\<lparr>routed := routed s @ [current s], attempt_count := attempt_count s + 1\<rparr>) = Next s'"
  using assms by (auto simp: trial_def Let_def split: option.splits if_splits)


lemma route_succeeded_fields:
  "high (route_succeeded env s) = current s"
  "low (route_succeeded env s) = low s"
  "final (route_succeeded env s) =
     (if current s = high s \<or> current s - low s \<le> udsd_multiplier env then current s else final s)"
  "current (route_succeeded env s) =
     int_of_float (float_div (float_of_int (if low s \<noteq> - 1 then current s + low s else current s))
        (if using_minw_hint s \<and> attempt_count s = 1 then to_float 1.1 else 2))"
  "attempt_count (route_succeeded env s) = attempt_count s"
  "using_minw_hint (route_succeeded env s) = using_minw_hint s"
  "Fc_clipped (route_succeeded env s) = Fc_clipped s"
  "routed (route_succeeded env s) = routed s"
  by (simp_all add: route_succeeded_def Let_def)

lemma round_to_multiplier_fields:
  "current (round_to_multiplier env s) = current s + current s smod udsd_multiplier env"
  "high (round_to_multiplier env s) = high s"
  "low (round_to_multiplier env s) = low s"
  "final (round_to_multiplier env s) = final s"
  "attempt_count (round_to_multiplier env s) = attempt_count s"
  "using_minw_hint (round_to_multiplier env s) = using_minw_hint s"
  "Fc_clipped (round_to_multiplier env s) = Fc_clipped s"
  "routed (round_to_multiplier env s) = routed s"
  "messages (round_to_multiplier env s) = messages s"
  by (simp_all add: round_to_multiplier_def)


lemma smod_nonneg: "0 \<le> (t::int) \<Longrightarrow> udsd_multiplier env = m \<Longrightarrow> 0 \<le> t + t smod m"
  using udsd_multiplier_cases [of env] by (auto simp: smod_one smod_two)

lemma success_invariant:
  assumes inv: "search_invariant env s" and guard: "width_guard env s = None"
    and s': "s' = round_to_multiplier env (route_succeeded env
                  (s\<lparr>routed := routed s @ [current s], attempt_count := attempt_count s + 1\<rparr>))"
  shows "search_invariant env s'"
proof -
  define n where "n = (if low s \<noteq> - 1 then current s + low s else current s)"
  define scale_factor where
    "scale_factor = (if using_minw_hint s \<and> attempt_count s + 1 = 1 then to_float 1.1 else 2)"
  define t where "t = int_of_float (float_div (float_of_int n) scale_factor)"
  have fields: "high s' = current s" "low s' = low s" "attempt_count s' = attempt_count s + 1"
    "using_minw_hint s' = using_minw_hint s" "current s' = t + t smod udsd_multiplier env"
    by (simp_all add: s' round_to_multiplier_fields route_succeeded_fields t_def n_def
        scale_factor_def)
  have low: "- 1 \<le> low s" and c0: "0 \<le> current s" and att: "0 \<le> attempt_count s"
    using inv guard by (simp_all add: search_invariant_def)
  have "0 \<le> n" using low c0 by (auto simp: n_def)
  moreover have "0 < scale_factor" using hint_factor_bounds(1) by (simp add: scale_factor_def)
  ultimately have "0 \<le> t" unfolding t_def by (rule quotient_nonneg)
  then have "0 \<le> t + t smod udsd_multiplier env" by (rule smod_nonneg) simp
  then show ?thesis
    using low c0 att fields unfolding search_invariant_def by auto
qed

lemma success_bounds:
  assumes inv: "search_invariant env s" and bounds: "bounds_invariant env s"
    and guard: "width_guard env s = None" and exact: "exact_widths env"
    and s': "s' = round_to_multiplier env (route_succeeded env
                  (s\<lparr>routed := routed s @ [current s], attempt_count := attempt_count s + 1\<rparr>))"
    and cont: "final s' = - 1"
  shows "bounds_invariant env s'"
proof -
  note m = udsd_multiplier_cases [of env]
  define c where "c = current s"
  define t where "t = current (route_succeeded env
                  (s\<lparr>routed := routed s @ [current s], attempt_count := attempt_count s + 1\<rparr>))"
  have fields: "high s' = c" "low s' = low s" "current s' = t + t smod udsd_multiplier env"
    by (simp_all add: s' round_to_multiplier_fields route_succeeded_fields c_def t_def)
  have low: "- 1 \<le> low s" and c0: "0 \<le> c"
    and hint: "using_minw_hint s \<and> attempt_count s = 0 \<Longrightarrow> low s = - 1"
    using inv guard by (simp_all add: search_invariant_def c_def)
  have lowc: "low s \<noteq> - 1 \<Longrightarrow> low s < c"
    using bounds by (simp add: bounds_invariant_def c_def)
  have cmax: "c \<le> 2 ^ 23" using guard_bound [OF exact guard] by (simp add: c_def)
  have far: "udsd_multiplier env < c - low s"
    using cont c0 by (simp add: s' round_to_multiplier_fields route_succeeded_fields c_def split: if_splits)
  have t: "t + t smod udsd_multiplier env \<le> c
      \<and> (udsd_multiplier env = 1 \<longrightarrow> t + t smod udsd_multiplier env < c)
      \<and> (low s \<noteq> - 1 \<longrightarrow> low s < t + t smod udsd_multiplier env)"
  proof (cases "low s = - 1")
    case True
    have cpos: "0 < c" using far True m by auto
    show ?thesis
    proof (cases "using_minw_hint s \<and> attempt_count s = 0")
      case True
      with \<open>low s = - 1\<close> have teq: "t = int_of_float (float_div (float_of_int c) (to_float 1.1))"
        by (simp add: t_def route_succeeded_fields c_def)
      have "0 \<le> t" unfolding teq using c0 hint_factor_bounds(1) by (intro quotient_nonneg) simp_all
      moreover have "t < c" unfolding teq using cpos cmax by (intro hint_quotient_less) simp_all
      ultimately show ?thesis using \<open>low s = - 1\<close> m by (auto simp: smod_two smod_one)
    next
      case False
      with \<open>low s = - 1\<close> have "t = int_of_float (float_div (float_of_int c) 2)"
        by (auto simp add: t_def route_succeeded_fields c_def)
      then have teq: "t = c sdiv 2" using c0 cmax by (simp add: halve_exact)
      show ?thesis using \<open>low s = - 1\<close> m c0 far unfolding teq sdiv_two
        by (auto simp: smod_two smod_one split: if_splits; presburger)
    qed
  next
    case False
    then have "\<not> (using_minw_hint s \<and> attempt_count s = 0)" using hint by blast
    with False have "t = int_of_float (float_div (float_of_int (c + low s)) 2)"
      by (auto simp add: t_def route_succeeded_fields c_def)
    moreover have "\<bar>c + low s\<bar> \<le> 2 ^ 24" using low c0 cmax lowc [OF False] by simp
    ultimately have teq: "t = (c + low s) sdiv 2" by (simp add: halve_exact)
    from next_between [OF m far] have "low s < t + t smod udsd_multiplier env"
      "t + t smod udsd_multiplier env < c" unfolding teq by simp_all
    then show ?thesis by auto
  qed
  show ?thesis
    using t fields c0 cmax unfolding bounds_invariant_def
    by (auto simp: udsd_multiplier_def split: if_splits)
qed

lemma route_failed_NextD:
  assumes "route_failed env success s = Next s'"
  shows "low s' = current s" and "high s' = high s"
    and "final s' = (if high s \<noteq> - 1 \<and> high s - current s \<le> udsd_multiplier env
                     then high s else final s)"
    and "high s \<noteq> - 1 \<Longrightarrow> current s' =
           int_of_float (float_div (float_of_int (high s + current s)) 2)
           + int_of_float (float_div (float_of_int (high s + current s)) 2) smod udsd_multiplier env"
    and "high s = - 1 \<Longrightarrow> fixed_channel_width env = Some W \<Longrightarrow>
           current s < W + 30 \<and>
           current s' = current s + 5 * udsd_multiplier env
                        + (current s + 5 * udsd_multiplier env) smod udsd_multiplier env"
    and "high s = - 1 \<Longrightarrow> fixed_channel_width env = None \<Longrightarrow>
           current s' = int_of_float (float_mul (float_of_int (current s)) 2)
             + int_of_float (float_mul (float_of_int (current s)) 2) smod udsd_multiplier env"
    and "attempt_count s' = attempt_count s" and "using_minw_hint s' = using_minw_hint s"
    and "Fc_clipped s' = Fc_clipped s" and "routed s' = routed s"
  using assms
  by (auto simp: route_failed_def round_to_multiplier_def Let_def
      split: if_splits option.splits)

lemma failure_step:
  assumes inv: "search_invariant env s" and guard: "width_guard env s = None"
    and s': "route_failed env success
               (s\<lparr>routed := routed s @ [current s], attempt_count := attempt_count s + 1\<rparr>) = Next s'"
  shows "high s = - 1 \<Longrightarrow> current s < current s'"
    and "high s \<noteq> - 1 \<Longrightarrow> 0 \<le> current s'"
proof -
  note m = udsd_multiplier_cases [of env]
  note f = route_failed_NextD [OF s', simplified]
  have c0: "0 \<le> current s" and pos: "high s = - 1 \<Longrightarrow> 0 < current s"
    and h: "- 1 \<le> high s"
    using inv by (simp_all add: search_invariant_def)
  show "current s < current s'" if unknown: "high s = - 1"
  proof (cases "fixed_channel_width env")
    case None
    then have "current s \<le> 1000" using guard by (simp add: width_guard_def split: if_splits)
    then have "int_of_float (float_mul (float_of_int (current s)) 2) = 2 * current s"
      using c0 by (intro double_exact) simp
    then show ?thesis using f(6) [OF unknown None] pos [OF unknown] m
      by (auto simp: smod_two smod_one)
  next
    case (Some W)
    then show ?thesis using f(5) [OF unknown Some] m by (auto simp: smod_two smod_one)
  qed
  show "0 \<le> current s'" if known: "high s \<noteq> - 1"
  proof -
    have "0 \<le> high s + current s" using h known c0 by simp
    then have "0 \<le> int_of_float (float_div (float_of_int (high s + current s)) 2)"
      by (intro quotient_nonneg) simp_all
    then have "0 \<le> int_of_float (float_div (float_of_int (high s + current s)) 2)
      + int_of_float (float_div (float_of_int (high s + current s)) 2) smod udsd_multiplier env"
      by (rule smod_nonneg) simp
    then show ?thesis using f(4) [OF known] by simp
  qed
qed

lemma failure_invariant:
  assumes inv: "search_invariant env s" and guard: "width_guard env s = None"
    and s': "route_failed env success
               (s\<lparr>routed := routed s @ [current s], attempt_count := attempt_count s + 1\<rparr>) = Next s'"
  shows "search_invariant env s'"
proof -
  note f = route_failed_NextD [OF s', simplified]
  note step = failure_step [OF inv guard s']
  have c0: "0 \<le> current s" and att: "0 \<le> attempt_count s" and h: "- 1 \<le> high s"
    using inv by (simp_all add: search_invariant_def)
  have "0 \<le> current s' \<and> (high s = - 1 \<longrightarrow> 0 < current s')"
    using step c0 by (cases "high s = - 1") auto
  then show ?thesis
    using f(1,2,7,8) c0 att h unfolding search_invariant_def by auto
qed

lemma failure_bounds:
  assumes inv: "search_invariant env s" and bounds: "bounds_invariant env s"
    and guard: "width_guard env s = None" and exact: "exact_widths env"
    and s': "route_failed env success
               (s\<lparr>routed := routed s @ [current s], attempt_count := attempt_count s + 1\<rparr>) = Next s'"
    and cont: "final s' = - 1"
  shows "bounds_invariant env s'"
proof -
  note m = udsd_multiplier_cases [of env]
  note f = route_failed_NextD [OF s', simplified]
  have c0: "0 \<le> current s" using inv by (simp add: search_invariant_def)
  have chigh: "high s \<noteq> - 1 \<Longrightarrow> high s \<le> 2 ^ 23"
    using bounds by (simp add: bounds_invariant_def)
  have cmax: "current s \<le> 2 ^ 23" using guard_bound [OF exact guard] .
  have cur: "current s < current s' \<and> (high s \<noteq> - 1 \<longrightarrow> current s' < high s)"
  proof (cases "high s = - 1")
    case True
    then show ?thesis using failure_step(1) [OF inv guard s'] by simp
  next
    case False
    then have far: "udsd_multiplier env < high s - current s"
      using cont f(3) by (auto split: if_splits)
    have "\<bar>high s + current s\<bar> \<le> 2 ^ 24" using c0 cmax chigh [OF False] far m by auto
    then have "int_of_float (float_div (float_of_int (high s + current s)) 2)
        = (high s + current s) sdiv 2" by (rule halve_exact)
    with next_between [OF m far] False f(4) show ?thesis by simp
  qed
  then show ?thesis
    using f(1,2) chigh unfolding bounds_invariant_def by auto
qed

lemma trial_invariant:
  assumes "trial env orc s = Next s'" "search_invariant env s" "\<not> Fc_clipped s"
  shows "search_invariant env s'"
proof (cases "orc (length (routed s)) (current s)")
  case True
  then show ?thesis
    using trial_NextD(1,3) [OF assms(1)] assms success_invariant by blast
next
  case False
  then show ?thesis
    using trial_NextD(1,4) [OF assms(1)] assms failure_invariant by blast
qed

lemma loop_reaches_invariant:
  "loop_reaches env orc s \<Longrightarrow> search_invariant env s"
proof (induction rule: loop_reaches.induct)
  case (start s)
  then show ?case by (simp add: search_init_invariant)
next
  case (again s s')
  then show ?case
    using trial_invariant loop_reaches_flags by blast
qed

lemma trial_bounds:
  assumes "trial env orc s = Next s'" "search_invariant env s" "bounds_invariant env s"
    "exact_widths env" "\<not> Fc_clipped s" "final s' = - 1"
  shows "bounds_invariant env s'"
proof (cases "orc (length (routed s)) (current s)")
  case True
  then show ?thesis
    using trial_NextD(1,3) [OF assms(1)] assms success_bounds by blast
next
  case False
  then show ?thesis
    using trial_NextD(1,4) [OF assms(1)] assms failure_bounds by blast
qed

lemma loop_reaches_bounds:
  "loop_reaches env orc s \<Longrightarrow> exact_widths env \<Longrightarrow> final s = - 1 \<Longrightarrow> bounds_invariant env s"
proof (induction rule: loop_reaches.induct)
  case (start s)
  then show ?case by (simp add: search_init_bounds)
next
  case (again s s')
  then show ?case
    using trial_bounds loop_reaches_flags loop_reaches_invariant by blast
qed

lemma route_failed_AbortD:
  assumes "route_failed env success s = Abort e s'"
  shows "e = Wneed_exceedingly_large" and "high s = - 1"
    and "\<exists>W. fixed_channel_width env = Some W \<and> \<not> current s < W + 30"
    and "low s' = current s" and "current s' = current s" and "high s' = high s"
    and "final s' = final s" and "routed s' = routed s" and "Fc_clipped s' = Fc_clipped s"
    and "\<not> Fc_clipped s \<Longrightarrow> messages s' = messages s"
  using assms
  by (auto simp: route_failed_def round_to_multiplier_def Let_def split: if_splits option.splits)

lemma route_failed_not_Break: "route_failed env success s \<noteq> Break s'"
  by (auto simp: route_failed_def Let_def split: if_splits option.splits)

lemma trial_cases [case_names guard fs_stop success failure wneed]:
  fixes env orc s
  defines "s1 \<equiv> s\<lparr>routed := routed s @ [current s], attempt_count := attempt_count s + 1\<rparr>"
  obtains
    (guard) e where "width_guard env s = Some e" "trial env orc s = Abort e s"
  | (fs_stop) "width_guard env s = None" "current s * 3 < Fs env"
      "trial env orc s = Break (s\<lparr>final := high s\<rparr>)"
  | (success) "width_guard env s = None" "\<not> current s * 3 < Fs env"
      "orc (length (routed s)) (current s)" "\<not> Fc_clipped s"
      "trial env orc s = Next (round_to_multiplier env (route_succeeded env s1))"
  | (failure) s' where "width_guard env s = None" "\<not> current s * 3 < Fs env"
      "\<not> (orc (length (routed s)) (current s) \<and> \<not> Fc_clipped s)"
      "trial env orc s = Next s'"
      "route_failed env (orc (length (routed s)) (current s)) s1 = Next s'"
  | (wneed) s' where "width_guard env s = None" "\<not> current s * 3 < Fs env"
      "\<not> (orc (length (routed s)) (current s) \<and> \<not> Fc_clipped s)"
      "trial env orc s = Abort Wneed_exceedingly_large s'"
      "route_failed env (orc (length (routed s)) (current s)) s1 = Abort Wneed_exceedingly_large s'"
proof (cases "width_guard env s")
  case (Some e)
  then show ?thesis using guard by (simp add: trial_def)
next
  case None
  show ?thesis
  proof (cases "current s * 3 < Fs env")
    case True
    then show ?thesis using None fs_stop by (simp add: trial_def)
  next
    case False
    show ?thesis
    proof (cases "orc (length (routed s)) (current s) \<and> \<not> Fc_clipped s")
      case True
      then show ?thesis using None False success by (simp add: trial_def Let_def s1_def)
    next
      case nok: False
      then have eq: "trial env orc s = route_failed env (orc (length (routed s)) (current s)) s1"
        using None False by (auto simp add: trial_def Let_def s1_def)
      show ?thesis
      proof (cases "route_failed env (orc (length (routed s)) (current s)) s1")
        case (Abort e s')
        then show ?thesis
          using route_failed_AbortD(1) [OF Abort] wneed [of s'] None False nok eq by simp
      next
        case (Break s')
        then show ?thesis using route_failed_not_Break by blast
      next
        case (Next s')
        then show ?thesis using failure [of s'] None False nok eq by simp
      qed
    qed
  qed
qed

lemma trial_parity:
  assumes uni: "directionality env = UNI_DIRECTIONAL"
    and p: "even (current s)" "high s = - 1 \<or> even (high s)" "final s = - 1 \<or> even (final s)"
      "\<forall>w\<in>set (routed s). even w"
  shows "even (current (step_state (trial env orc s)))
    \<and> (high (step_state (trial env orc s)) = - 1 \<or> even (high (step_state (trial env orc s))))
    \<and> (final (step_state (trial env orc s)) = - 1 \<or> even (final (step_state (trial env orc s))))
    \<and> (\<forall>w\<in>set (routed (step_state (trial env orc s))). even w)"
proof -
  have m: "udsd_multiplier env = 2" using uni by (simp add: udsd_multiplier_def)
  show ?thesis
  proof (cases env orc s rule: trial_cases)
    case (guard e)
    then show ?thesis using p by simp
  next
    case fs_stop
    then show ?thesis using p by simp
  next
    case success
    then show ?thesis
      using p by (simp add: round_to_multiplier_fields route_succeeded_fields m smod_two)
  next
    case (failure s')
    note f = route_failed_NextD [OF failure(5), simplified]
    have "even (current s')"
    proof (cases "high s = - 1")
      case True
      then show ?thesis
        using f(5,6) p(1) by (cases "fixed_channel_width env") (auto simp: m smod_two)
    next
      case False
      then show ?thesis using f(4) by (simp add: m smod_two)
    qed
    then show ?thesis using failure(4) f(2,3,10) p by auto
  next
    case (wneed s')
    note f = route_failed_AbortD [OF wneed(5), simplified]
    show ?thesis using wneed(4) f p by simp
  qed
qed

lemma loop_reaches_parity:
  assumes uni: "directionality env = UNI_DIRECTIONAL" and r: "loop_reaches env orc s"
  shows "even (current s) \<and> (high s = - 1 \<or> even (high s)) \<and> (final s = - 1 \<or> even (final s))
    \<and> (\<forall>w\<in>set (routed s). even w)"
  using r
proof (induction rule: loop_reaches.induct)
  case (start s)
  then show ?case using uni
    by (auto simp: search_init_def Let_def initial_guess_def smod_two split: if_splits option.splits)
next
  case (again s s')
  then show ?case using trial_parity [OF uni, of s orc] by simp
qed

lemma loop_exits_parity:
  assumes uni: "directionality env = UNI_DIRECTIONAL" and r: "loop_exits env orc s"
  shows "(final s = - 1 \<or> even (final s)) \<and> (\<forall>w\<in>set (routed s). even w)"
  using r
proof (cases rule: loop_exits.cases)
  case (by_condition)
  then show ?thesis using loop_reaches_parity [OF uni] by blast
next
  case (by_break s0)
  then show ?thesis
    using loop_reaches_parity [OF uni by_break(1)] trial_parity [OF uni, of s0 orc] by simp
qed

lemma verify_parity:
  assumes uni: "directionality env = UNI_DIRECTIONAL"
    and p: "final s = - 1 \<or> even (final s)" "\<forall>w\<in>set (routed s). even w"
  shows "\<forall>w\<in>set (routed (verify env orc s)). even w"
proof (cases "verify_binary_search env")
  case False
  then show ?thesis using p by (simp add: verify_def)
next
  case True
  have "even (current (s\<lparr>current := final s - 2\<rparr>)) \<or> current (s\<lparr>current := final s - 2\<rparr>) < 1"
    using p(1) by auto
  from verify_loop_even [OF uni this] p(2) True show ?thesis by (simp add: verify_def)
qed

section \<open>The next trial width\<close>





section \<open>Parity of the widths tried\<close>

text \<open>
  C3. Under unidirectional routing every width passed to \<open>try_route\<close>, by the
  search loop or by the verifier, is even: the log of every state of a run holds even
  widths only. An odd first guess ends the run with a fatal error before the loop is
  entered, so that no state of a run exists.
\<close>

theorem unidirectional_widths_even:
  assumes uni: "directionality env = UNI_DIRECTIONAL"
  shows "(run_state env try_route s \<longrightarrow> (\<forall>w\<in>set (routed s). even w))
    \<and> (odd (current (initial_guess env)) \<longrightarrow>
          binary_search_place_and_route env try_route = Some (Inl Odd_chan_width_tried)
          \<and> (\<forall>s'. \<not> run_state env try_route s'))"
proof -
  have log: "\<forall>w\<in>set (routed s). even w" if "run_state env try_route s"
    using that
  proof (cases rule: run_state.cases)
    case in_loop
    then show ?thesis using loop_reaches_parity [OF uni] by blast
  next
    case (in_trial s0)
    then show ?thesis
      using loop_reaches_parity [OF uni in_trial(2)] trial_parity [OF uni, of s0 try_route] by simp
  next
    case (verified s0)
    then show ?thesis using loop_exits_parity [OF uni verified(2)] verify_parity [OF uni] by blast
  next
    case (reported s0)
    then show ?thesis
      using loop_exits_parity [OF uni reported(2)] verify_parity [OF uni, of s0 try_route]
      by (simp add: report_best_def)
  qed
  have abort: "binary_search_place_and_route env try_route = Some (Inl Odd_chan_width_tried)
      \<and> (\<forall>s'. \<not> run_state env try_route s')"
    if odd: "odd (current (initial_guess env))"
  proof -
    have init: "search_init env = Inl Odd_chan_width_tried"
      using odd uni by (simp add: search_init_def Let_def smod_two)
    then have no_loop: "\<not> loop_reaches env try_route s'" for s'
    proof -
      have "loop_reaches env try_route s' \<Longrightarrow> False"
        by (induction rule: loop_reaches.induct) (simp_all add: init)
      then show ?thesis by blast
    qed
    then have "\<not> loop_exits env try_route s'" for s'
      by (auto elim: loop_exits.cases)
    with no_loop have "\<not> run_state env try_route s'" for s'
      by (auto elim: run_state.cases)
    then show ?thesis
      using init by (simp add: binary_search_place_and_route_def search_run_def)
  qed
  show ?thesis using log abort by blast
qed

theorem unidirectional_widths_even_witness:
  "directionality uni_env = UNI_DIRECTIONAL
   \<and> run_state uni_env (routes_from 0) uni_done \<and> routed uni_done = [2, 2] \<and> even (2 :: int)
   \<and> directionality odd_env = UNI_DIRECTIONAL \<and> odd (current (initial_guess odd_env))
   \<and> binary_search_place_and_route odd_env (routes_from 0) = Some (Inl Odd_chan_width_tried)"
proof -
  have uni: "directionality uni_env = UNI_DIRECTIONAL" "directionality odd_env = UNI_DIRECTIONAL"
    by (simp_all add: uni_env_def odd_env_def)
  have "loop_reaches uni_env (routes_from 0) uni_second"
    by (simp add: uni_second_reached routes_from_def)
  moreover have "final uni_second = - 1" by (simp add: uni_second_def)
  moreover have "trial uni_env (routes_from 0) uni_second = Next uni_done"
    by (simp add: uni_second_trial routes_from_def)
  ultimately have "loop_reaches uni_env (routes_from 0) uni_done"
    using loop_reaches.again by blast
  then have run: "run_state uni_env (routes_from 0) uni_done" by (rule run_state.in_loop)
  have odd: "odd (current (initial_guess odd_env))"
    by (simp add: odd_env_def uni_env_def initial_guess_def udsd_multiplier_def)
  from unidirectional_widths_even [OF uni(1), of "routes_from 0" uni_done]
    unidirectional_widths_even [OF uni(2), of "routes_from 0"] uni run odd
  show ?thesis by (simp add: uni_done_def)
qed


section \<open>Where the search assigns its result\<close>

text \<open>
  C4, as stated, fails on \<open>uni_env\<close> after a first success at width 2, when width 2
  is tried again. If that trial fails, \<open>final\<close> is assigned with both bounds known and
  \<open>low = final\<close>. If it succeeds, \<open>final\<close> is assigned although \<open>high - low\<close>
  exceeds the multiplier and the Fs check has not triggered. Under bidirectional
  routing the claim fails for large widths only: in the search for the fixed width
  20000009 the bounds \<open>low = 20000012\<close> and \<open>high = 20000014\<close> make the next trial
  width 20000012 again; when that trial succeeds, \<open>final\<close> is assigned with
  \<open>low = final\<close>.
\<close>

theorem final_assignment_counterexample:
  "loop_reaches uni_env routes_first_call uni_second \<and> final uni_second = - 1
   \<and> trial uni_env routes_first_call uni_second = Next uni_refused
   \<and> final uni_refused = 2 \<and> low uni_refused = 2 \<and> high uni_refused = 2
   \<and> \<not> low uni_refused < final uni_refused
   \<and> loop_reaches uni_env (routes_from 0) uni_second
   \<and> trial uni_env (routes_from 0) uni_second = Next uni_done
   \<and> final uni_done = 2 \<and> high uni_done - low uni_done = 3 \<and> udsd_multiplier uni_env = 2
   \<and> \<not> current uni_second * 3 < Fs uni_env
   \<and> directionality huge_env = BI_DIRECTIONAL
   \<and> loop_reaches huge_env (routes_at_calls [0, 2]) huge_third \<and> final huge_third = - 1
   \<and> trial huge_env (routes_at_calls [0, 2]) huge_third = Next huge_done
   \<and> final huge_done = 20000012 \<and> low huge_done = 20000012 \<and> high huge_done = 20000012
   \<and> \<not> low huge_done < final huge_done"
proof -
  have "loop_reaches uni_env routes_first_call uni_second"
    "loop_reaches uni_env (routes_from 0) uni_second"
    by (simp_all add: uni_second_reached routes_first_call_def routes_from_def)
  moreover have "trial uni_env routes_first_call uni_second = Next uni_refused"
    "trial uni_env (routes_from 0) uni_second = Next uni_done"
    by (simp_all add: uni_second_trial routes_first_call_def routes_from_def)
  moreover have "loop_reaches huge_env (routes_at_calls [0, 2]) huge_third"
    by (rule huge_third_reached) (simp_all add: routes_at_calls_def)
  moreover have "trial huge_env (routes_at_calls [0, 2]) huge_third = Next huge_done"
    by (rule huge_third_trial) (simp add: routes_at_calls_def)
  moreover have "directionality huge_env = BI_DIRECTIONAL"
    by (simp add: huge_env_def bidir_env_def)
  ultimately show ?thesis
    by (simp add: uni_second_def uni_refused_def uni_done_def udsd_multiplier_def uni_env_def
        huge_third_def huge_done_def)
qed

text \<open>
  C4, amended. In a pass of the search loop \<open>final\<close> is assigned exactly when the
  trial succeeds at \<open>current = high\<close>, when \<open>high\<close> is known and
  \<open>high - low\<close> is at most the multiplier after the trial, or when the Fs check
  breaks out of the loop. At every such assignment \<open>final = high\<close>. In a search whose widths stay at or below \<open>2 ^ 23\<close> (every
  search without a fixed width, and those with a fixed width of at most \<open>2 ^ 21\<close>)
  a known lower bound is at most \<open>final\<close>, and below it except after a failed
  trial at \<open>current = high\<close>; when the Fs check assigns with both bounds known,
  \<open>low < final\<close>; and under bidirectional routing the claim holds as stated: a trial
  assigns \<open>final\<close> only when \<open>high - low\<close> is at most the multiplier, and a known
  lower bound is below \<open>final\<close>.
\<close>

theorem final_assignment:
  assumes reach: "loop_reaches env try_route s" and unset: "final s = - 1"
  shows "(\<forall>s'. trial env try_route s = Next s' \<longrightarrow>
            (final s' \<noteq> - 1 \<longleftrightarrow>
               try_route (length (routed s)) (current s) \<and> current s = high s
               \<or> high s' \<noteq> - 1 \<and> high s' - low s' \<le> udsd_multiplier env)
            \<and> (final s' \<noteq> - 1 \<longrightarrow>
                 final s' = high s' \<and> high s' \<noteq> - 1
                 \<and> (exact_widths env \<longrightarrow>
                      (low s' \<noteq> - 1 \<longrightarrow> low s' \<le> final s'
                         \<and> (low s' < final s' \<longleftrightarrow>
                              try_route (length (routed s)) (current s) \<or> current s < high s))
                      \<and> (directionality env = BI_DIRECTIONAL \<longrightarrow>
                           high s' - low s' \<le> udsd_multiplier env
                           \<and> (low s' \<noteq> - 1 \<longrightarrow> low s' < final s')))))
       \<and> (\<forall>s'. trial env try_route s = Break s' \<longrightarrow>
            current s * 3 < Fs env \<and> final s' = high s'
            \<and> (exact_widths env \<and> low s' \<noteq> - 1 \<and> high s' \<noteq> - 1 \<longrightarrow> low s' < final s'))"
proof -
  have inv: "search_invariant env s" using reach by (rule loop_reaches_invariant)
  then have c0: "0 \<le> current s" by (simp add: search_invariant_def)
  have bounds: "bounds_invariant env s" if "exact_widths env"
    using reach that unset by (rule loop_reaches_bounds)
  have lowc: "low s \<noteq> - 1 \<Longrightarrow> low s < current s"
    and chigh: "high s \<noteq> - 1 \<Longrightarrow> current s \<le> high s"
    and strict: "directionality env = BI_DIRECTIONAL \<Longrightarrow> high s \<noteq> - 1 \<Longrightarrow> current s < high s"
    if "exact_widths env"
    using bounds [OF that] by (simp_all add: bounds_invariant_def)
  have unclipped: "\<not> Fc_clipped s" using loop_reaches_flags [OF reach] by simp
  show ?thesis
  proof (cases env try_route s rule: trial_cases)
    case (guard e)
    then show ?thesis by simp
  next
    case fs_stop
    then show ?thesis using lowc chigh by auto
  next
    case success
    have never: "current s \<noteq> high s" if "exact_widths env" "directionality env = BI_DIRECTIONAL"
      using strict [OF that] c0 by (cases "high s = - 1") auto
    show ?thesis
      using success(3,5) c0 lowc unset never
      by (auto simp: round_to_multiplier_fields route_succeeded_fields split: if_splits)
  next
    case (failure s')
    note f = route_failed_NextD [OF failure(5), simplified]
    show ?thesis
      using failure(3,4) f(1,2,3) chigh strict unset unclipped by (auto split: if_splits)
  next
    case (wneed s')
    then show ?thesis by simp
  qed
qed

theorem final_assignment_witness:
  "loop_reaches uni_env routes_first_call uni_second \<and> final uni_second = - 1
   \<and> exact_widths uni_env
   \<and> trial uni_env routes_first_call uni_second = Next uni_refused \<and> final uni_refused \<noteq> - 1
   \<and> \<not> routes_first_call (length (routed uni_second)) (current uni_second)
   \<and> \<not> current uni_second < high uni_second
   \<and> high uni_refused - low uni_refused \<le> udsd_multiplier uni_env
   \<and> final uni_refused = high uni_refused \<and> low uni_refused \<le> final uni_refused
   \<and> \<not> low uni_refused < final uni_refused
   \<and> loop_reaches small_env routes_first_call small_second \<and> final small_second = - 1
   \<and> exact_widths small_env \<and> directionality small_env = BI_DIRECTIONAL
   \<and> trial small_env routes_first_call small_second = Next small_found
   \<and> final small_found \<noteq> - 1 \<and> low small_found \<noteq> - 1
   \<and> high small_found - low small_found \<le> udsd_multiplier small_env
   \<and> final small_found = high small_found \<and> low small_found < final small_found
   \<and> loop_reaches floor_env never_routes floor_start \<and> final floor_start = - 1
   \<and> trial floor_env never_routes floor_start = Break (floor_start\<lparr>final := - 1\<rparr>)
   \<and> current floor_start * 3 < Fs floor_env"
proof -
  have r1: "loop_reaches uni_env routes_first_call uni_second"
    by (simp add: uni_second_reached routes_first_call_def)
  have u1: "final uni_second = - 1" by (simp add: uni_second_def)
  have e1: "exact_widths uni_env" by (simp add: exact_widths_def uni_env_def)
  have t1: "trial uni_env routes_first_call uni_second = Next uni_refused"
    by (simp add: uni_second_trial routes_first_call_def)
  have n1: "final uni_refused \<noteq> - 1" "low uni_refused \<noteq> - 1"
    "\<not> routes_first_call (length (routed uni_second)) (current uni_second)"
    "\<not> current uni_second < high uni_second"
    by (simp_all add: uni_refused_def uni_second_def routes_first_call_def)
  have r2: "loop_reaches floor_env never_routes floor_start"
    using floor_env_start by (rule loop_reaches.start)
  have u2: "final floor_start = - 1" by (simp add: floor_start_def)
  have t2: "trial floor_env never_routes floor_start = Break (floor_start\<lparr>final := - 1\<rparr>)"
    by (simp add: trial_eval floor_env_def bidir_env_def floor_start_def)
  have r3: "loop_reaches small_env routes_first_call small_second"
    by (rule small_second_reached) (simp add: routes_first_call_def)
  have u3: "final small_second = - 1" by (simp add: small_second_def)
  have e3: "exact_widths small_env" "directionality small_env = BI_DIRECTIONAL"
    by (simp_all add: exact_widths_def small_env_def bidir_env_def)
  have t3: "trial small_env routes_first_call small_second = Next small_found"
    by (simp add: small_second_trial routes_first_call_def)
  have n3: "final small_found \<noteq> - 1" "low small_found \<noteq> - 1" by (simp_all add: small_found_def)
  from final_assignment [OF r1 u1, THEN conjunct1, rule_format, of uni_refused] t1 n1 e1
  have a: "high uni_refused - low uni_refused \<le> udsd_multiplier uni_env"
    "final uni_refused = high uni_refused" "low uni_refused \<le> final uni_refused"
    "\<not> low uni_refused < final uni_refused"
    by simp_all
  from final_assignment [OF r3 u3, THEN conjunct1, rule_format, of small_found] t3 n3 e3
  have c: "high small_found - low small_found \<le> udsd_multiplier small_env"
    "final small_found = high small_found" "low small_found < final small_found"
    by simp_all
  from final_assignment [OF r2 u2, THEN conjunct2, rule_format, OF t2]
  have b: "current floor_start * 3 < Fs floor_env" by simp
  show ?thesis using r1 u1 e1 t1 n1 r2 u2 t2 a b r3 u3 e3 t3 n3 c by simp
qed

section \<open>The fixed-width search for the upper bound\<close>

lemma loop_reaches_high_unknown:
  "loop_reaches env orc s \<Longrightarrow> high s = - 1 \<Longrightarrow> final s = - 1"
proof (induction rule: loop_reaches.induct)
  case (start s)
  then show ?case by (simp add: search_init_flags)
next
  case (again s s')
  have inv: "search_invariant env s" using again(1) by (rule loop_reaches_invariant)
  then have c0: "0 \<le> current s" by (simp add: search_invariant_def)
  show ?case
  proof (cases env orc s rule: trial_cases)
    case success
    then show ?thesis
      using again(3,5) c0 by (auto simp: round_to_multiplier_fields route_succeeded_fields)
  next
    case (failure s'')
    note f = route_failed_NextD [OF failure(5), simplified]
    show ?thesis using failure(4) again f(2,3) by auto
  qed (use again in simp_all)
qed

lemma fixed_phase:
  assumes "loop_reaches env orc s" "fixed_channel_width env = Some W" "high s = - 1"
  shows "\<exists>k. 1 \<le> k \<and> udsd_multiplier env * k \<le> 6
           \<and> current s = W + 5 * udsd_multiplier env * k
           \<and> current s smod udsd_multiplier env = 0"
  using assms
proof (induction rule: loop_reaches.induct)
  case (start s)
  then have "current s = W + 5 * udsd_multiplier env * 1 \<and> current s smod udsd_multiplier env = 0"
    by (cases "directionality env")
       (auto simp: search_init_def Let_def initial_guess_def udsd_multiplier_def smod_one
        split: if_splits)
  moreover have "udsd_multiplier env * 1 \<le> 6" using udsd_multiplier_cases [of env] by auto
  ultimately show ?case by (intro exI [of _ 1]) auto
next
  case (again s s')
  have inv: "search_invariant env s" using again(1) by (rule loop_reaches_invariant)
  then have c0: "0 \<le> current s" by (simp add: search_invariant_def)
  show ?case
  proof (cases env orc s rule: trial_cases)
    case success
    then show ?thesis
      using again(3,6) c0 by (auto simp: round_to_multiplier_fields route_succeeded_fields)
  next
    case (failure s'')
    note f = route_failed_NextD [OF failure(5), simplified]
    have s'': "s'' = s'" using failure(4) again(3) by simp
    have hu: "high s = - 1" using f(2) again(6) s'' by simp
    from again(4) [OF again(5) hu] obtain k where k: "1 \<le> k" "udsd_multiplier env * k \<le> 6"
      "current s = W + 5 * udsd_multiplier env * k" "current s smod udsd_multiplier env = 0"
      by blast
    from f(5) [OF hu again(5)] have lt: "current s < W + 30"
      and c': "current s'' = current s + 5 * udsd_multiplier env
                        + (current s + 5 * udsd_multiplier env) smod udsd_multiplier env"
      by simp_all
    note m = udsd_multiplier_cases [of env]
    have r: "(current s + 5 * udsd_multiplier env) smod udsd_multiplier env = 0"
      using m k(4) by (auto simp: smod_one smod_two split: if_splits)
    have "current s' = W + 5 * udsd_multiplier env * (k + 1)"
      using c' r k(3) s'' by (simp add: algebra_simps)
    moreover have "udsd_multiplier env * (k + 1) \<le> 6"
      using m lt k by (auto simp: algebra_simps) 
    moreover have "current s' smod udsd_multiplier env = 0"
      using c' r s'' by simp
    ultimately show ?thesis using k(1) by (intro exI [of _ "k + 1"]) simp
  qed (use again in simp_all)
qed

text \<open>
  C5. In fixed-width mode with no upper bound known, a failed trial makes the failed
  width the lower bound; the search aborts if \<open>low + 5 * mult\<close> would exceed
  \<open>W + 30\<close>, and otherwise the next trial width is \<open>low + 5 * mult\<close>.
\<close>

theorem wneed_search_step:
  assumes reach: "loop_reaches env try_route s"
    and fixed: "fixed_channel_width env = Some W" and unknown: "high s = - 1"
    and guard: "width_guard env s = None" and fs: "\<not> current s * 3 < Fs env"
    and failed: "\<not> try_route (length (routed s)) (current s)"
  shows "if W + 30 < current s + 5 * udsd_multiplier env
         then \<exists>s'. trial env try_route s = Abort Wneed_exceedingly_large s'
         else \<exists>s'. trial env try_route s = Next s' \<and> low s' = current s \<and> high s' = - 1
                \<and> current s' = low s' + 5 * udsd_multiplier env"
proof -
  note m = udsd_multiplier_cases [of env]
  from fixed_phase [OF reach fixed unknown] obtain k where k: "1 \<le> k"
    "udsd_multiplier env * k \<le> 6" "current s = W + 5 * udsd_multiplier env * k"
    "current s smod udsd_multiplier env = 0"
    by blast
  have iff: "W + 30 < current s + 5 * udsd_multiplier env \<longleftrightarrow> \<not> current s < W + 30"
    using m k by auto
  have r: "(current s + 5 * udsd_multiplier env) smod udsd_multiplier env = 0"
    using m k(4) by (auto simp: smod_one smod_two split: if_splits)
  show ?thesis
  proof (cases env try_route s rule: trial_cases)
    case (failure s')
    note f = route_failed_NextD [OF failure(5), simplified]
    from f(5) [OF unknown fixed] have "current s < W + 30"
      "current s' = current s + 5 * udsd_multiplier env" using r by simp_all
    then show ?thesis using failure(4) f(1,2) unknown iff by simp
  next
    case (wneed s')
    note f = route_failed_AbortD [OF wneed(5), simplified]
    show ?thesis using wneed(4) f(3) fixed iff by simp
  qed (use guard fs failed in simp_all)
qed

theorem wneed_search_step_witness:
  "loop_reaches fixed_env never_routes (fixed_trial 0)
   \<and> fixed_channel_width fixed_env = Some 20 \<and> high (fixed_trial 0) = - 1
   \<and> width_guard fixed_env (fixed_trial 0) = None
   \<and> \<not> current (fixed_trial 0) * 3 < Fs fixed_env
   \<and> \<not> never_routes (length (routed (fixed_trial 0))) (current (fixed_trial 0))
   \<and> current (fixed_trial 0) = 25 \<and> udsd_multiplier fixed_env = 1
   \<and> (\<exists>s'. trial fixed_env never_routes (fixed_trial 0) = Next s'
             \<and> low s' = 25 \<and> high s' = - 1 \<and> current s' = 30)
   \<and> loop_reaches fixed_env never_routes (fixed_trial 5)
   \<and> high (fixed_trial 5) = - 1 \<and> width_guard fixed_env (fixed_trial 5) = None
   \<and> \<not> current (fixed_trial 5) * 3 < Fs fixed_env
   \<and> \<not> never_routes (length (routed (fixed_trial 5))) (current (fixed_trial 5))
   \<and> current (fixed_trial 5) = 50
   \<and> (\<exists>s'. trial fixed_env never_routes (fixed_trial 5) = Abort Wneed_exceedingly_large s')"
proof -
  have W: "fixed_channel_width fixed_env = Some 20" and m: "udsd_multiplier fixed_env = 1"
    by (simp_all add: fixed_env_def bidir_env_def udsd_multiplier_def)
  have r: "loop_reaches fixed_env never_routes (fixed_trial 0)"
    "loop_reaches fixed_env never_routes (fixed_trial 5)"
    by (simp_all add: fixed_env_reaches)
  have h: "high (fixed_trial k) = - 1" and c: "current (fixed_trial k) = 25 + 5 * int k" for k
    by (simp_all add: fixed_trial_def)
  have g: "width_guard fixed_env (fixed_trial k) = None" if "k \<le> 5" for k
    using that by (simp add: width_guard_def fixed_env_def bidir_env_def fixed_trial_def)
  have f: "\<not> current (fixed_trial k) * 3 < Fs fixed_env" for k
    by (simp add: fixed_env_def bidir_env_def fixed_trial_def)
  have n: "\<not> never_routes i w" for i w by (simp add: never_routes_def)
  from wneed_search_step [OF r(1) W h g f n]
  have a: "\<exists>s'. trial fixed_env never_routes (fixed_trial 0) = Next s'
             \<and> low s' = 25 \<and> high s' = - 1 \<and> current s' = 30"
    by (auto simp: c m)
  from wneed_search_step [OF r(2) W h g f n]
  have b: "\<exists>s'. trial fixed_env never_routes (fixed_trial 5) = Abort Wneed_exceedingly_large s'"
    by (simp add: c m)
  have c0: "current (fixed_trial 0) = 25" and c5: "current (fixed_trial 5) = 50"
    by (simp_all add: c)
  show ?thesis
    using W m r h [of 0] h [of 5] g [of 0] g [of 5] f [of 0] f [of 5] n a b c0 c5
    by blast
qed


section \<open>Errors of the distribution calculator\<close>

lemma comp_width_unknown:
  "\<not> known_kind chan \<Longrightarrow> comp_width chan x separation = Inl Unknown_channel_type"
  by (simp add: comp_width_def known_kind_def)

lemma comp_width_known:
  "known_kind chan \<Longrightarrow> \<exists>v. comp_width chan x separation = Inr v"
  by (auto simp: comp_width_def known_kind_def Let_def)

lemma interior_width_unknown:
  "\<not> known_kind chan \<Longrightarrow> interior_width cfactor chan x separation = Inl Unknown_channel_type"
  by (simp add: interior_width_def comp_width_unknown)

lemma interior_width_known:
  "known_kind chan \<Longrightarrow> \<exists>w. interior_width cfactor chan x separation = Inr w \<and> 1 \<le> w"
  using comp_width_known [of chan x separation] by (auto simp: interior_width_def)

lemma fill_interior_known:
  "known_kind chan \<Longrightarrow> \<exists>ys. fill_interior cfactor chan n separation is xs = Inr ys"
proof (induction "is" arbitrary: xs)
  case Nil
  show ?case by simp
next
  case (Cons i "is")
  obtain w where "interior_width cfactor chan (real i / (real n - 2)) separation = Inr w"
    using interior_width_known [OF Cons.prems] by blast
  then show ?case using Cons.IH [OF Cons.prems] by simp
qed

lemma axis_list_unknown:
  "\<not> known_kind chan \<Longrightarrow> 1 < n \<Longrightarrow> axis_list cfactor nio chan n = Inl Unknown_channel_type"
  by (simp add: axis_list_def interior_width_unknown)

lemma axis_list_known:
  assumes "known_kind chan \<or> n \<le> 1"
  shows "\<exists>xs. axis_list cfactor nio chan n = Inr xs"
proof (cases "1 < n")
  case False
  then show ?thesis by (simp add: axis_list_def)
next
  case True
  then have k: "known_kind chan" using assms by simp
  obtain w where "interior_width cfactor chan 0 (channel_separation n) = Inr w"
    using interior_width_known [OF k] by blast
  then show ?thesis
    using True fill_interior_known [OF k] by (simp add: axis_list_def)
qed

lemma init_chan_unknown:
  assumes "1 < ny_grid \<and> \<not> known_kind (chan_x_dist chans)
           \<or> 1 < nx_grid \<and> \<not> known_kind (chan_y_dist chans)"
  shows "init_chan cfactor chans nx_grid ny_grid = Inl Unknown_channel_type"
proof (cases "1 < ny_grid \<and> \<not> known_kind (chan_x_dist chans)")
  case True
  then show ?thesis by (simp add: init_chan_def Let_def axis_list_unknown)
next
  case False
  then have x: "known_kind (chan_x_dist chans) \<or> ny_grid \<le> 1" by auto
  from False assms have y: "1 < nx_grid" "\<not> known_kind (chan_y_dist chans)" by auto
  show ?thesis
    using axis_list_known [OF x, of cfactor] axis_list_unknown [OF y(2,1), of cfactor]
    unfolding init_chan_def Let_def
    by (metis (no_types, lifting) old.sum.simps(5,6))
qed

lemma init_chan_known:
  assumes x: "known_kind (chan_x_dist chans) \<or> ny_grid \<le> 1"
    and y: "known_kind (chan_y_dist chans) \<or> nx_grid \<le> 1"
  shows "\<exists>cw. init_chan cfactor chans nx_grid ny_grid = Inr cw"
proof -
  define nio0 where "nio0 = \<lfloor>real_of_int cfactor * chan_width_io chans + 0.5\<rfloor>"
  define nio where "nio = (if nio0 = 0 then 1 else nio0)"
  obtain xl where xl: "axis_list cfactor nio (chan_x_dist chans) ny_grid = Inr xl"
    using axis_list_known [OF x] by blast
  obtain yl where yl: "axis_list cfactor nio (chan_y_dist chans) nx_grid = Inr yl"
    using axis_list_known [OF y] by blast
  show ?thesis
    using xl yl unfolding init_chan_def Let_def nio_def nio0_def by simp
qed

lemma init_chan_error:
  "init_chan cfactor chans nx_grid ny_grid = Inl e \<longleftrightarrow>
     e = Unknown_channel_type \<and>
     (1 < ny_grid \<and> \<not> known_kind (chan_x_dist chans)
      \<or> 1 < nx_grid \<and> \<not> known_kind (chan_y_dist chans))"
proof (cases "1 < ny_grid \<and> \<not> known_kind (chan_x_dist chans)
      \<or> 1 < nx_grid \<and> \<not> known_kind (chan_y_dist chans)")
  case True
  then show ?thesis using init_chan_unknown [OF True, of cfactor] by auto
next
  case False
  then have "known_kind (chan_x_dist chans) \<or> ny_grid \<le> 1"
    "known_kind (chan_y_dist chans) \<or> nx_grid \<le> 1" by auto
  from init_chan_known [OF this, of cfactor] False show ?thesis by auto
qed

section \<open>The loop as a whole\<close>

lemma search_loop_reaches:
  "loop_reaches env orc s \<Longrightarrow>
     \<exists>s0. search_init env = Inr s0 \<and> search_loop env orc s0 = search_loop env orc s"
proof (induction rule: loop_reaches.induct)
  case (start s)
  then show ?case by simp
next
  case (again s s')
  then have "search_loop env orc s = search_loop env orc s'"
    by (subst search_loop.simps) simp
  then show ?case using again.IH by auto
qed

lemma verify_infeasible:
  "final s = - 1 \<Longrightarrow> final (verify env orc s) = - 1 \<and> routed (verify env orc s) = routed s"
  by (simp add: verify_def verify_loop_stop)

lemma loop_exits_result:
  assumes "loop_exits env orc s"
  shows "\<exists>s0. search_init env = Inr s0 \<and> search_loop env orc s0 = Some (Inr s)"
  using assms
proof (cases rule: loop_exits.cases)
  case by_condition
  then have "search_loop env orc s = Some (Inr s)" by (subst search_loop.simps) simp
  then show ?thesis using search_loop_reaches [OF by_condition(1)] by auto
next
  case (by_break s1)
  then have "search_loop env orc s1 = Some (Inr s)" by (subst search_loop.simps) simp
  then show ?thesis using search_loop_reaches [OF by_break(1)] by auto
qed

lemma loop_abort_result:
  assumes "loop_reaches env orc s" "final s = - 1" "trial env orc s = Abort e s'"
  shows "\<exists>s0. search_init env = Inr s0 \<and> search_loop env orc s0 = Some (Inl e)"
proof -
  have "search_loop env orc s = Some (Inl e)" using assms(2,3) by (subst search_loop.simps) simp
  then show ?thesis using search_loop_reaches [OF assms(1)] by auto
qed

lemma search_loop_partial:
  assumes result: "search_loop env orc s = Some r" and reach: "loop_reaches env orc s"
  shows "case r of
           Inl e \<Rightarrow> \<exists>s1 s'. loop_reaches env orc s1 \<and> final s1 = - 1 \<and> trial env orc s1 = Abort e s'
         | Inr s' \<Rightarrow> loop_exits env orc s'"
proof -
  let ?Q = "\<lambda>env orc r. case r of
           Inl e \<Rightarrow> \<exists>s1 s'. loop_reaches env orc s1 \<and> final s1 = - 1 \<and> trial env orc s1 = Abort e s'
         | Inr s' \<Rightarrow> loop_exits env orc s'"
  have "loop_reaches env orc s \<longrightarrow> ?Q env orc r"
  proof (rule search_loop.raw_induct
      [where P = "\<lambda>env orc s r. loop_reaches env orc s \<longrightarrow> ?Q env orc r", OF _ result])
    fix loop :: "search_env \<Rightarrow> route_oracle \<Rightarrow> search_state \<Rightarrow> (vpr_error + search_state) option"
    fix env orc s r
    assume IH: "\<And>env orc s r. loop env orc s = Some r \<Longrightarrow> loop_reaches env orc s \<longrightarrow> ?Q env orc r"
    assume body: "(if final s = - 1
                   then case trial env orc s of Abort e s' \<Rightarrow> Some (Inl e)
                        | Break s' \<Rightarrow> Some (Inr s') | Next s' \<Rightarrow> loop env orc s'
                   else Some (Inr s)) = Some r"
    show "loop_reaches env orc s \<longrightarrow> ?Q env orc r"
    proof
      assume reach: "loop_reaches env orc s"
      show "?Q env orc r"
      proof (cases "final s = - 1")
        case False
        then show ?thesis using body reach by (auto intro: loop_exits.by_condition)
      next
        case True
        show ?thesis
        proof (cases "trial env orc s")
          case (Abort e s')
          then have "r = Inl e" using True body by simp
          then show ?thesis using Abort True reach by auto
        next
          case (Break s')
          then show ?thesis using True body reach by (auto intro: loop_exits.by_break)
        next
          case (Next s')
          then have "loop env orc s' = Some r" using True body by simp
          moreover have "loop_reaches env orc s'" using reach True Next by (rule loop_reaches.again)
          ultimately show ?thesis using IH by blast
        qed
      qed
    qed
  qed
  then show ?thesis using reach by blast
qed

section \<open>The Fs check\<close>

text \<open>
  C7, as stated, fails. The width guard comes before the Fs check: with the hint 1500
  and \<open>Fs = 6000\<close> the first pass has \<open>3 * current < Fs\<close>, yet the loop does not
  stop with \<open>final = high\<close>; the run ends with the fatal error for a width above
  1000. And when the Fs check stops the search with no success recorded, the caller
  still gets a fatal error if a distribution profile is of unknown kind, because the
  channel widths are set for the result \<open>-1\<close> before the function returns.
\<close>

theorem fs_floor_counterexample:
  "search_init far_env = Inr far_start \<and> final far_start = - 1
   \<and> current far_start * 3 < Fs far_env
   \<and> trial far_env never_routes far_start = Abort Width_above_1000 far_start
   \<and> binary_search_place_and_route far_env never_routes = Some (Inl Width_above_1000)
   \<and> place_and_route far_env never_routes = Some (Inl Width_above_1000)
   \<and> search_init unknown_kind_env = Inr floor_start \<and> high floor_start = - 1
   \<and> current floor_start * 3 < Fs unknown_kind_env
   \<and> trial unknown_kind_env never_routes floor_start = Break (floor_start\<lparr>final := - 1\<rparr>)
   \<and> binary_search_place_and_route unknown_kind_env never_routes
       = Some (Inl Unknown_channel_type)
   \<and> place_and_route unknown_kind_env never_routes = Some (Inl Unknown_channel_type)"
proof -
  have far: "trial far_env never_routes far_start = Abort Width_above_1000 far_start"
    by (simp add: trial_def width_guard_def far_env_def bidir_env_def far_start_def)
  have far_loop: "search_loop far_env never_routes far_start = Some (Inl Width_above_1000)"
    by (subst search_loop.simps) (simp add: far, simp add: far_start_def)
  have far_run: "binary_search_place_and_route far_env never_routes = Some (Inl Width_above_1000)"
    by (simp add: binary_search_place_and_route_def search_run_def far_env_start far_loop)
  have "doRouting far_env" "fixed_channel_width far_env = None"
    by (simp_all add: far_env_def bidir_env_def)
  then have far_top: "place_and_route far_env never_routes = Some (Inl Width_above_1000)"
    by (simp add: place_and_route_def far_run)
  have init: "search_init unknown_kind_env = Inr floor_start"
    by (simp add: init_eval unknown_kind_env_def floor_env_def bidir_env_def floor_start_def)
  have stop: "trial unknown_kind_env never_routes floor_start = Break (floor_start\<lparr>final := - 1\<rparr>)"
    by (simp add: trial_def width_guard_def unknown_kind_env_def floor_env_def bidir_env_def
        floor_start_def)
  have loop: "search_loop unknown_kind_env never_routes floor_start
      = Some (Inr (floor_start\<lparr>final := - 1\<rparr>))"
    by (subst search_loop.simps) (simp add: stop, simp add: floor_start_def)
  have "\<not> known_kind (chan_x_dist (Chans unknown_kind_env))" "1 < ny unknown_kind_env"
    by (simp_all add: unknown_kind_env_def floor_env_def bidir_env_def unknown_chan_def
        known_kind_def UNIFORM_def GAUSSIAN_def PULSE_def DELTA_def)
  then have "init_chan c (Chans unknown_kind_env) (nx unknown_kind_env) (ny unknown_kind_env)
      = Inl Unknown_channel_type" for c
    by (intro init_chan_unknown) simp
  then have run: "binary_search_place_and_route unknown_kind_env never_routes
      = Some (Inl Unknown_channel_type)"
    by (simp add: binary_search_place_and_route_def search_run_def init loop search_finish_def)
  have "doRouting unknown_kind_env" "fixed_channel_width unknown_kind_env = None"
    by (simp_all add: unknown_kind_env_def floor_env_def bidir_env_def)
  then have top: "place_and_route unknown_kind_env never_routes = Some (Inl Unknown_channel_type)"
    by (simp add: place_and_route_def run)
  show ?thesis
    using far far_run far_top init stop run top far_env_start
    by (simp add: far_start_def far_env_def floor_start_def unknown_kind_env_def floor_env_def
        bidir_env_def)
qed

text \<open>
  C7, amended. In a pass with \<open>3 * current < Fs\<close> the width guard is applied first:
  a width it refuses ends the run with its fatal error; otherwise the loop stops with
  \<open>final = high\<close>, whether \<open>high\<close> is known or not. When the loop stops in this
  way with no success recorded (\<open>high\<close> unknown), \<open>binary_search_place_and_route\<close>
  returns \<open>-1\<close> and \<open>place_and_route\<close> returns \<open>success = false\<close> without
  raising, provided the distribution profiles are of known kinds; with a profile of
  unknown kind the run ends with the fatal error for it.
\<close>

theorem fs_floor_stops_search:
  "(current s * 3 < Fs env \<longrightarrow>
      trial env try_route s
        = (case width_guard env s of
             Some e \<Rightarrow> Abort e s
           | None \<Rightarrow> Break (s\<lparr>final := high s\<rparr>)))
   \<and> (loop_reaches env try_route s \<and> final s = - 1 \<and> width_guard env s = None
        \<and> current s * 3 < Fs env \<longrightarrow>
      (\<exists>s0. search_init env = Inr s0
            \<and> search_loop env try_route s0 = Some (Inr (s\<lparr>final := high s\<rparr>)))
      \<and> (high s = - 1 \<longrightarrow>
           binary_search_place_and_route env try_route
             = (if (1 < ny env \<longrightarrow> known_kind (chan_x_dist (Chans env)))
                   \<and> (1 < nx env \<longrightarrow> known_kind (chan_y_dist (Chans env)))
                then Some (Inr (- 1)) else Some (Inl Unknown_channel_type))
           \<and> (fixed_channel_width env = None \<and> doRouting env \<longrightarrow>
                place_and_route env try_route
                  = (if (1 < ny env \<longrightarrow> known_kind (chan_x_dist (Chans env)))
                        \<and> (1 < nx env \<longrightarrow> known_kind (chan_y_dist (Chans env)))
                     then Some (Inr False) else Some (Inl Unknown_channel_type)))))"
proof -
  have first: "trial env try_route s
        = (case width_guard env s of
             Some e \<Rightarrow> Abort e s
           | None \<Rightarrow> Break (s\<lparr>final := high s\<rparr>))"
    if "current s * 3 < Fs env"
    using that by (simp add: trial_def split: option.splits)
  have second: "(\<exists>s0. search_init env = Inr s0
            \<and> search_loop env try_route s0 = Some (Inr (s\<lparr>final := high s\<rparr>)))
      \<and> (high s = - 1 \<longrightarrow>
           binary_search_place_and_route env try_route
             = (if (1 < ny env \<longrightarrow> known_kind (chan_x_dist (Chans env)))
                   \<and> (1 < nx env \<longrightarrow> known_kind (chan_y_dist (Chans env)))
                then Some (Inr (- 1)) else Some (Inl Unknown_channel_type))
           \<and> (fixed_channel_width env = None \<and> doRouting env \<longrightarrow>
                place_and_route env try_route
                  = (if (1 < ny env \<longrightarrow> known_kind (chan_x_dist (Chans env)))
                        \<and> (1 < nx env \<longrightarrow> known_kind (chan_y_dist (Chans env)))
                     then Some (Inr False) else Some (Inl Unknown_channel_type))))"
    if reach: "loop_reaches env try_route s" and unset: "final s = - 1"
      and guard: "width_guard env s = None" and floor: "current s * 3 < Fs env"
  proof -
    have break: "trial env try_route s = Break (s\<lparr>final := high s\<rparr>)"
      using guard floor by (simp add: trial_def)
    have loop: "search_loop env try_route s = Some (Inr (s\<lparr>final := high s\<rparr>))"
      using unset break by (subst search_loop.simps) simp
    from search_loop_reaches [OF reach] obtain s0 where
      s0: "search_init env = Inr s0" "search_loop env try_route s0 = search_loop env try_route s"
      by blast
    define kinds where "kinds \<longleftrightarrow> (1 < ny env \<longrightarrow> known_kind (chan_x_dist (Chans env)))
                   \<and> (1 < nx env \<longrightarrow> known_kind (chan_y_dist (Chans env)))"
    have result: "binary_search_place_and_route env try_route
        = (if kinds then Some (Inr (- 1)) else Some (Inl Unknown_channel_type))"
      if unknown: "high s = - 1"
    proof -
      define s' where "s' = verify env try_route (s\<lparr>final := high s\<rparr>)"
      have fin: "final s' = - 1"
        using unknown verify_infeasible [of "s\<lparr>final := high s\<rparr>" env try_route]
        by (simp add: s'_def)
      have run: "search_run env try_route = Some (search_finish env s')"
        using s0 loop by (simp add: search_run_def s'_def)
      show ?thesis
      proof (cases kinds)
        case True
        then obtain cw where cw: "init_chan (final s') (Chans env) (nx env) (ny env) = Inr cw"
          using init_chan_error [of "final s'" "Chans env" "nx env" "ny env"]
          by (cases "init_chan (final s') (Chans env) (nx env) (ny env)") (auto simp: kinds_def)
        then show ?thesis
          using True fin run
          by (simp add: binary_search_place_and_route_def search_finish_def report_best_def)
      next
        case False
        then have "init_chan (final s') (Chans env) (nx env) (ny env) = Inl Unknown_channel_type"
          by (intro init_chan_unknown) (auto simp: kinds_def)
        then show ?thesis
          using False run by (simp add: binary_search_place_and_route_def search_finish_def)
      qed
    qed
    then have "place_and_route env try_route
        = (if kinds then Some (Inr False) else Some (Inl Unknown_channel_type))"
      if "high s = - 1" "fixed_channel_width env = None" "doRouting env"
      using that by (simp add: place_and_route_def)
    with s0 loop result show ?thesis unfolding kinds_def by auto
  qed
  show ?thesis using first second by blast
qed

theorem fs_floor_stops_search_witness:
  "loop_reaches small_env (routes_from 0) small_third \<and> final small_third = - 1
   \<and> width_guard small_env small_third = None \<and> current small_third * 3 < Fs small_env
   \<and> high small_third = 1
   \<and> trial small_env (routes_from 0) small_third = Break (small_third\<lparr>final := 1\<rparr>)
   \<and> search_init small_env = Inr small_start
   \<and> search_loop small_env (routes_from 0) small_start = Some (Inr (small_third\<lparr>final := 1\<rparr>))
   \<and> current far_start * 3 < Fs far_env
   \<and> width_guard far_env far_start = Some Width_above_1000
   \<and> trial far_env never_routes far_start = Abort Width_above_1000 far_start
   \<and> loop_reaches floor_env never_routes floor_start \<and> final floor_start = - 1
   \<and> width_guard floor_env floor_start = None \<and> current floor_start * 3 < Fs floor_env
   \<and> high floor_start = - 1 \<and> known_kind (chan_x_dist (Chans floor_env))
   \<and> known_kind (chan_y_dist (Chans floor_env))
   \<and> fixed_channel_width floor_env = None \<and> doRouting floor_env
   \<and> trial floor_env never_routes floor_start = Break (floor_start\<lparr>final := - 1\<rparr>)
   \<and> binary_search_place_and_route floor_env never_routes = Some (Inr (- 1))
   \<and> place_and_route floor_env never_routes = Some (Inr False)"
proof -
  note c1 = conjunct1 and c2 = conjunct2
  have r1: "loop_reaches small_env (routes_from 0) small_third"
    by (rule small_third_reached) (simp_all add: routes_from_def)
  have st1: "final small_third = - 1" "high small_third = 1"
    by (simp_all add: small_third_def)
  have g1: "width_guard small_env small_third = None"
    by (simp add: width_guard_def small_env_def bidir_env_def small_third_def)
  have f1: "current small_third * 3 < Fs small_env"
    by (simp add: small_env_def bidir_env_def small_third_def)
  have a: "trial small_env (routes_from 0) small_third = Break (small_third\<lparr>final := 1\<rparr>)"
    using fs_floor_stops_search [of small_third small_env "routes_from 0", THEN c1] f1 g1 st1
    by simp
  have b: "search_loop small_env (routes_from 0) small_start
      = Some (Inr (small_third\<lparr>final := 1\<rparr>))"
    using fs_floor_stops_search [of small_third small_env "routes_from 0", THEN c2, THEN mp,
        THEN c1] r1 st1 g1 f1 small_env_start
    by auto
  have f2: "current far_start * 3 < Fs far_env"
    by (simp add: far_env_def bidir_env_def far_start_def)
  have g2: "width_guard far_env far_start = Some Width_above_1000"
    by (simp add: width_guard_def far_env_def bidir_env_def far_start_def)
  have c: "trial far_env never_routes far_start = Abort Width_above_1000 far_start"
    using fs_floor_stops_search [of far_start far_env never_routes, THEN c1] f2 g2 by simp
  have r3: "loop_reaches floor_env never_routes floor_start"
    using floor_env_start by (rule loop_reaches.start)
  have st3: "final floor_start = - 1" "high floor_start = - 1" by (simp_all add: floor_start_def)
  have g3: "width_guard floor_env floor_start = None"
    by (simp add: width_guard_def floor_env_def bidir_env_def floor_start_def)
  have f3: "current floor_start * 3 < Fs floor_env"
    by (simp add: floor_env_def bidir_env_def floor_start_def)
  have k3: "known_kind (chan_x_dist (Chans floor_env))" "known_kind (chan_y_dist (Chans floor_env))"
    "fixed_channel_width floor_env = None" "doRouting floor_env"
    by (simp_all add: floor_env_def bidir_env_def uniform_chans_def known_kind_def)
  have d: "trial floor_env never_routes floor_start = Break (floor_start\<lparr>final := - 1\<rparr>)"
    using fs_floor_stops_search [of floor_start floor_env never_routes, THEN c1] f3 g3 st3
    by simp
  have e: "binary_search_place_and_route floor_env never_routes = Some (Inr (- 1))
      \<and> place_and_route floor_env never_routes = Some (Inr False)"
    using fs_floor_stops_search [of floor_start floor_env never_routes, THEN c2, THEN mp,
        THEN c2, THEN mp] r3 st3 g3 f3 k3
    by simp
  show ?thesis
    using r1 st1 g1 f1 a b small_env_start f2 g2 c r3 st3 g3 f3 k3 d e by simp
qed

section \<open>Fatal errors\<close>

lemma search_run_error:
  "search_run env orc = Some (Inl e) \<longleftrightarrow>
     search_init env = Inl e
     \<or> (\<exists>s s'. loop_reaches env orc s \<and> final s = - 1 \<and> trial env orc s = Abort e s')
     \<or> (\<exists>s. loop_exits env orc s
            \<and> init_chan (final (verify env orc s)) (Chans env) (nx env) (ny env) = Inl e)"
  (is "?lhs \<longleftrightarrow> ?init \<or> ?loop \<or> ?fin")
proof
  assume ?lhs
  show "?init \<or> ?loop \<or> ?fin"
  proof (cases "search_init env")
    case (Inl e')
    then show ?thesis using \<open>?lhs\<close> by (simp add: search_run_def)
  next
    case (Inr s0)
    then have reach: "loop_reaches env orc s0" by (rule loop_reaches.start)
    show ?thesis
    proof (cases "search_loop env orc s0")
      case None
      then show ?thesis using \<open>?lhs\<close> Inr by (simp add: search_run_def)
    next
      case (Some r)
      note part = search_loop_partial [OF Some reach]
      show ?thesis
      proof (cases r)
        case (Inl e')
        then have "e' = e" using \<open>?lhs\<close> Inr Some by (simp add: search_run_def)
        then show ?thesis using part Inl by auto
      next
        case r: (Inr s)
        then have "search_finish env (verify env orc s) = Inl e"
          using \<open>?lhs\<close> Inr Some by (simp add: search_run_def)
        then have "init_chan (final (verify env orc s)) (Chans env) (nx env) (ny env) = Inl e"
          by (auto simp: search_finish_def split: sum.splits)
        moreover have "loop_exits env orc s" using part r by simp
        ultimately show ?thesis by blast
      qed
    qed
  qed
next
  assume "?init \<or> ?loop \<or> ?fin"
  then consider ?init | ?loop | ?fin by blast
  then show ?lhs
  proof cases
    case 1
    then show ?thesis by (simp add: search_run_def)
  next
    case 2
    then obtain s s' where "loop_reaches env orc s" "final s = - 1" "trial env orc s = Abort e s'"
      by blast
    from loop_abort_result [OF this] show ?thesis by (auto simp: search_run_def)
  next
    case 3
    then obtain s where s: "loop_exits env orc s"
      "init_chan (final (verify env orc s)) (Chans env) (nx env) (ny env) = Inl e" by blast
    from loop_exits_result [OF s(1)] s(2) show ?thesis
      by (auto simp: search_run_def search_finish_def)
  qed
qed

lemma search_init_error:
  "search_init env = Inl e \<longleftrightarrow>
     directionality env = UNI_DIRECTIONAL \<and> odd (current (initial_guess env))
       \<and> e = Odd_chan_width_tried
     \<or> directionality env = BI_DIRECTIONAL \<and> Fs env smod 3 \<noteq> 0
       \<and> e = Fs_not_multiple_of_three
     \<or> (directionality env = UNI_DIRECTIONAL \<and> even (current (initial_guess env))
        \<or> directionality env = BI_DIRECTIONAL \<and> Fs env smod 3 = 0)
       \<and> current (initial_guess env) \<le> 0 \<and> e = Assertion_failed"
  by (cases "directionality env") (auto simp: search_init_def Let_def smod_two)

lemma trial_error:
  "(\<exists>s'. trial env orc s = Abort e s') \<longleftrightarrow>
     (\<exists>W. fixed_channel_width env = Some W \<and> W * 4 < current s
           \<and> e = Unroutable_with_current_options)
     \<or> fixed_channel_width env = None \<and> 1000 < current s \<and> e = Width_above_1000
     \<or> (\<exists>W. fixed_channel_width env = Some W \<and> \<not> W * 4 < current s
           \<and> \<not> current s * 3 < Fs env
           \<and> \<not> (orc (length (routed s)) (current s) \<and> \<not> Fc_clipped s)
           \<and> high s = - 1 \<and> W + 30 \<le> current s \<and> e = Wneed_exceedingly_large)"
  by (auto simp: trial_def width_guard_def route_failed_def Let_def
      split: option.splits if_splits)

lemma place_and_route_error:
  "place_and_route env orc = Some (Inl e) \<longleftrightarrow>
     doRouting env \<and>
     (fixed_channel_width env = None \<and> search_run env orc = Some (Inl e)
      \<or> (\<exists>W. fixed_channel_width env = Some W \<and> directionality env = UNI_DIRECTIONAL
            \<and> odd W \<and> e = Odd_chan_width_given))"
  by (auto simp: place_and_route_def binary_search_place_and_route_def smod_two
      split: option.splits sum.splits prod.splits)


text \<open>
  C6, as stated, fails: on an architecture whose block types have no pins the first
  guess is 0, and the run ends by the assertion \<open>current > 0\<close>, which is none of
  the listed cases (the routing is bidirectional, \<open>Fs\<close> is a multiple of 3, no
  width is fixed, no trial has run, and the profile kinds are known).
\<close>

theorem fatal_aborts_counterexample:
  "place_and_route no_pins_env never_routes = Some (Inl Assertion_failed)
   \<and> directionality no_pins_env = BI_DIRECTIONAL \<and> Fs no_pins_env smod 3 = 0
   \<and> fixed_channel_width no_pins_env = None \<and> current (initial_guess no_pins_env) = 0
   \<and> known_kind (chan_x_dist (Chans no_pins_env))
   \<and> known_kind (chan_y_dist (Chans no_pins_env))"
  by (simp add: place_and_route_def binary_search_place_and_route_def search_run_def init_eval
      no_pins_env_def bidir_env_def uniform_chans_def known_kind_def)

text \<open>
  C6, amended. The run ends with a fatal error exactly in these cases: in
  \<open>place_and_route\<close>, an odd fixed width under unidirectional routing; before the
  first trial of the search, an odd first guess under unidirectional routing, an
  \<open>Fs\<close> that is not a multiple of 3 under bidirectional routing, or a failed assertion
  that the first guess is positive; in a trial, a width above \<open>4 * W\<close> in
  fixed-width mode or above 1000 otherwise, or a failed width of at least \<open>W + 30\<close>
  in fixed-width mode while no upper bound is known; at the end, an unknown profile
  kind met by \<open>comp_width\<close>.
\<close>

theorem fatal_aborts:
  "(place_and_route env try_route = Some (Inl e) \<longleftrightarrow>
      doRouting env \<and>
      (fixed_channel_width env = None \<and> search_run env try_route = Some (Inl e)
       \<or> (\<exists>W. fixed_channel_width env = Some W \<and> directionality env = UNI_DIRECTIONAL
             \<and> odd W \<and> e = Odd_chan_width_given)))
   \<and> (search_run env try_route = Some (Inl e) \<longleftrightarrow>
      search_init env = Inl e
      \<or> (\<exists>s s'. loop_reaches env try_route s \<and> final s = - 1
             \<and> trial env try_route s = Abort e s')
      \<or> (\<exists>s. loop_exits env try_route s
             \<and> init_chan (final (verify env try_route s)) (Chans env) (nx env) (ny env) = Inl e))
   \<and> (search_init env = Inl e \<longleftrightarrow>
      directionality env = UNI_DIRECTIONAL \<and> odd (current (initial_guess env))
        \<and> e = Odd_chan_width_tried
      \<or> directionality env = BI_DIRECTIONAL \<and> Fs env smod 3 \<noteq> 0
        \<and> e = Fs_not_multiple_of_three
      \<or> (directionality env = UNI_DIRECTIONAL \<and> even (current (initial_guess env))
         \<or> directionality env = BI_DIRECTIONAL \<and> Fs env smod 3 = 0)
        \<and> current (initial_guess env) \<le> 0 \<and> e = Assertion_failed)
   \<and> ((\<exists>s'. trial env try_route s = Abort e s') \<longleftrightarrow>
      (\<exists>W. fixed_channel_width env = Some W \<and> W * 4 < current s
            \<and> e = Unroutable_with_current_options)
      \<or> fixed_channel_width env = None \<and> 1000 < current s \<and> e = Width_above_1000
      \<or> (\<exists>W. fixed_channel_width env = Some W \<and> \<not> W * 4 < current s
            \<and> \<not> current s * 3 < Fs env
            \<and> \<not> (try_route (length (routed s)) (current s) \<and> \<not> Fc_clipped s)
            \<and> high s = - 1 \<and> W + 30 \<le> current s \<and> e = Wneed_exceedingly_large))
   \<and> (init_chan cfactor chans nx_grid ny_grid = Inl e \<longleftrightarrow>
      e = Unknown_channel_type \<and>
      (1 < ny_grid \<and> \<not> known_kind (chan_x_dist chans)
       \<or> 1 < nx_grid \<and> \<not> known_kind (chan_y_dist chans)))
   \<and> (comp_width chan x separation = Inl e \<longleftrightarrow>
      \<not> known_kind chan \<and> e = Unknown_channel_type)"
proof -
  have "comp_width chan x separation = Inl e \<longleftrightarrow> \<not> known_kind chan \<and> e = Unknown_channel_type"
    using comp_width_unknown [of chan x separation] comp_width_known [of chan x separation]
    by (cases "known_kind chan") auto
  then show ?thesis
    using place_and_route_error [of env try_route e] search_run_error [of env try_route e]
      search_init_error [of env e] trial_error [of env try_route s e]
      init_chan_error [of cfactor chans nx_grid ny_grid e]
    by (simp only:)
qed

theorem fatal_aborts_witness:
  "place_and_route odd_env never_routes = Some (Inl Odd_chan_width_given)
   \<and> search_init odd_env = Inl Odd_chan_width_tried
   \<and> search_init no_pins_env = Inl Assertion_failed
   \<and> (\<exists>s'. trial fixed_env never_routes (fixed_trial 5) = Abort Wneed_exceedingly_large s')
   \<and> search_run fixed_env never_routes = Some (Inl Wneed_exceedingly_large)
   \<and> init_chan 1 (uniform_chans\<lparr>chan_x_dist := unknown_chan\<rparr>) 3 3 = Inl Unknown_channel_type
   \<and> comp_width unknown_chan 0 Plus_infinity = Inl Unknown_channel_type"
proof -
  have odd: "doRouting odd_env" "fixed_channel_width odd_env = Some 7"
    "directionality odd_env = UNI_DIRECTIONAL" "odd (7 :: int)"
    "odd (current (initial_guess odd_env))"
    by (simp_all add: odd_env_def uni_env_def initial_guess_def udsd_multiplier_def)
  have nopins: "directionality no_pins_env = BI_DIRECTIONAL" "Fs no_pins_env smod 3 = 0"
    "current (initial_guess no_pins_env) \<le> 0"
    by (simp_all add: no_pins_env_def bidir_env_def initial_guess_def max_pins_per_clb_def
        signed_modulo_int_def)
  have fixed: "fixed_channel_width fixed_env = Some 20" "\<not> 20 * 4 < current (fixed_trial 5)"
    "\<not> current (fixed_trial 5) * 3 < Fs fixed_env"
    "\<not> never_routes (length (routed (fixed_trial 5))) (current (fixed_trial 5))"
    "high (fixed_trial 5) = - 1" "20 + 30 \<le> current (fixed_trial 5)"
    "final (fixed_trial 5) = - 1"
    by (simp_all add: fixed_env_def bidir_env_def fixed_trial_def never_routes_def)
  have reach: "loop_reaches fixed_env never_routes (fixed_trial 5)"
    by (simp add: fixed_env_reaches)
  have unknown: "\<not> known_kind unknown_chan"
    "chan_x_dist (uniform_chans\<lparr>chan_x_dist := unknown_chan\<rparr>) = unknown_chan"
    by (simp_all add: unknown_chan_def known_kind_def UNIFORM_def GAUSSIAN_def PULSE_def DELTA_def)
  note c1 = conjunct1 and c2 = conjunct2 [THEN conjunct1]
    and c3 = conjunct2 [THEN conjunct2, THEN conjunct1]
    and c4 = conjunct2 [THEN conjunct2, THEN conjunct2, THEN conjunct1]
    and c5 = conjunct2 [THEN conjunct2, THEN conjunct2, THEN conjunct2, THEN conjunct1]
    and c6 = conjunct2 [THEN conjunct2, THEN conjunct2, THEN conjunct2, THEN conjunct2]
  have 1: "place_and_route odd_env never_routes = Some (Inl Odd_chan_width_given)"
    using fatal_aborts [where env = odd_env and try_route = never_routes
        and e = Odd_chan_width_given, THEN c1] odd
    by simp
  have 2: "search_init odd_env = Inl Odd_chan_width_tried"
    using fatal_aborts [where env = odd_env and e = Odd_chan_width_tried, THEN c3] odd
    by simp
  have 3: "search_init no_pins_env = Inl Assertion_failed"
    using fatal_aborts [where env = no_pins_env and e = Assertion_failed, THEN c3] nopins
    by simp
  have 4: "\<exists>s'. trial fixed_env never_routes (fixed_trial 5) = Abort Wneed_exceedingly_large s'"
    using fatal_aborts [where env = fixed_env and try_route = never_routes
        and s = "fixed_trial 5" and e = Wneed_exceedingly_large, THEN c4] fixed
    by simp
  have 5: "search_run fixed_env never_routes = Some (Inl Wneed_exceedingly_large)"
    using fatal_aborts [where env = fixed_env and try_route = never_routes
        and e = Wneed_exceedingly_large, THEN c2, THEN iffD2] 4 reach fixed(7)
    by blast
  have 6: "init_chan 1 (uniform_chans\<lparr>chan_x_dist := unknown_chan\<rparr>) 3 3 = Inl Unknown_channel_type"
    using fatal_aborts [where e = Unknown_channel_type and cfactor = 1
        and chans = "uniform_chans\<lparr>chan_x_dist := unknown_chan\<rparr>" and nx_grid = 3
        and ny_grid = 3, THEN c5] unknown
    by simp
  have 7: "comp_width unknown_chan 0 Plus_infinity = Inl Unknown_channel_type"
    using fatal_aborts [where e = Unknown_channel_type and chan = unknown_chan and x = 0
        and separation = Plus_infinity, THEN c6] unknown
    by simp
  show ?thesis using 1 2 3 4 5 6 7 by simp
qed


section \<open>The flag for clipped connectivity\<close>

lemma loop_exits_flags:
  assumes "loop_exits env orc s"
  shows "\<not> Fc_clipped s \<and> messages s = []"
  using assms
proof (cases rule: loop_exits.cases)
  case by_condition
  then show ?thesis using loop_reaches_flags by blast
next
  case (by_break s0)
  then show ?thesis
    using loop_reaches_flags [OF by_break(1)] trial_keeps_flag(1) [of env orc s0]
      trial_messages [of s0 env orc] by simp
qed

lemma verify_flags:
  "Fc_clipped (verify env orc s) = Fc_clipped s \<and> messages (verify env orc s) = messages s"
  by (simp add: verify_def verify_loop_flags)

text \<open>
  C10. \<open>Fc_clipped\<close> is false when the search starts, and no pass of the search
  loop, no probe of the verifier and no final report changes it. So in every state of a
  run the flag is false and none of the three messages that depend on it has been
  printed; and every success of \<open>try_route\<close> is accepted: in the search loop it
  becomes the new upper bound, in the verifier the new \<open>final\<close>.
\<close>

theorem fc_clipped_never_set:
  "(run_state env try_route s \<longrightarrow> \<not> Fc_clipped s \<and> messages s = [])
   \<and> Fc_clipped (step_state (trial env try_route s)) = Fc_clipped s
   \<and> Fc_clipped (snd (verify_probe env try_route s)) = Fc_clipped s
   \<and> Fc_clipped (report_best s) = Fc_clipped s
   \<and> (loop_reaches env try_route s \<and> final s = - 1 \<and> width_guard env s = None
        \<and> \<not> current s * 3 < Fs env \<and> try_route (length (routed s)) (current s)
      \<longrightarrow> (\<exists>s'. trial env try_route s = Next s' \<and> high s' = current s))
   \<and> (\<not> Fc_clipped s \<and> try_route (length (routed s)) (current s)
      \<longrightarrow> final (snd (verify_probe env try_route s)) = current s)"
proof -
  have run: "\<not> Fc_clipped s \<and> messages s = []" if "run_state env try_route s"
    using that
  proof (cases rule: run_state.cases)
    case in_loop
    then show ?thesis using loop_reaches_flags by blast
  next
    case (in_trial s0)
    then show ?thesis
      using loop_reaches_flags [OF in_trial(2)] trial_keeps_flag(1) [of env try_route s0]
        trial_messages [of s0 env try_route] by simp
  next
    case (verified s0)
    then show ?thesis using loop_exits_flags [OF verified(2)] verify_flags by simp
  next
    case (reported s0)
    then show ?thesis
      using loop_exits_flags [OF reported(2)] verify_flags [of env try_route s0]
      by (simp add: report_best_def)
  qed
  have accepted: "\<exists>s'. trial env try_route s = Next s' \<and> high s' = current s"
    if "loop_reaches env try_route s" "width_guard env s = None" "\<not> current s * 3 < Fs env"
      "try_route (length (routed s)) (current s)"
  proof -
    have "\<not> Fc_clipped s" using loop_reaches_flags [OF that(1)] by simp
    then show ?thesis
      using that(2-4)
      by (simp add: trial_def Let_def round_to_multiplier_fields route_succeeded_fields)
  qed
  show ?thesis
    using run accepted trial_keeps_flag(1) [of env try_route s]
    by (auto simp: verify_probe_fields report_best_def)
qed

theorem fc_clipped_never_set_witness:
  "run_state uni_env (routes_from 0) uni_done \<and> \<not> Fc_clipped uni_done \<and> messages uni_done = []
   \<and> loop_reaches uni_env (routes_from 0) uni_second \<and> final uni_second = - 1
   \<and> width_guard uni_env uni_second = None \<and> \<not> current uni_second * 3 < Fs uni_env
   \<and> routes_from 0 (length (routed uni_second)) (current uni_second)
   \<and> (\<exists>s'. trial uni_env (routes_from 0) uni_second = Next s' \<and> high s' = current uni_second)
   \<and> final (snd (verify_probe uni_env (routes_from 0) uni_second)) = current uni_second"
proof -
  have run: "run_state uni_env (routes_from 0) uni_done"
    using uni_done_reached by (rule run_state.in_loop)
  have r: "loop_reaches uni_env (routes_from 0) uni_second"
    by (simp add: uni_second_reached routes_from_def)
  have st: "final uni_second = - 1" "width_guard uni_env uni_second = None"
    "\<not> current uni_second * 3 < Fs uni_env"
    "routes_from 0 (length (routed uni_second)) (current uni_second)"
    "\<not> Fc_clipped uni_second"
    by (simp_all add: uni_second_def uni_env_def width_guard_def routes_from_def)
  from fc_clipped_never_set [of uni_env "routes_from 0" uni_done]
    fc_clipped_never_set [of uni_env "routes_from 0" uni_second] run r st
  show ?thesis by blast
qed



section \<open>The track counts\<close>

lemmas calc_eval = init_chan_def axis_list_def interior_width_def comp_width_def
  scaled_width_def channel_separation_def Let_def UNIFORM_def GAUSSIAN_def PULSE_def DELTA_def

lemma fill_interior_entries:
  assumes "fill_interior cfactor chan n separation is xs = Inr ys"
  shows "length ys = length xs \<and>
         (\<forall>j<length xs. if j \<in> Suc ` set is then 1 \<le> ys ! j else ys ! j = xs ! j)"
  using assms
proof (induction "is" arbitrary: xs)
  case Nil
  then show ?case by simp
next
  case (Cons i "is")
  from Cons.prems obtain w where
    w: "interior_width cfactor chan (real i / (real n - 2)) separation = Inr w"
    and rest: "fill_interior cfactor chan n separation is (xs[i + 1 := w]) = Inr ys"
    by (auto split: sum.splits)
  have w1: "1 \<le> w" using w by (auto simp: interior_width_def split: sum.splits)
  from Cons.IH [OF rest] have len: "length ys = length xs"
    and ih: "\<And>j. j < length xs \<Longrightarrow>
               (if j \<in> Suc ` set is then 1 \<le> ys ! j else ys ! j = (xs[i + 1 := w]) ! j)"
    by simp_all
  have "if j \<in> Suc ` set (i # is) then 1 \<le> ys ! j else ys ! j = xs ! j"
    if "j < length xs" for j
    using ih [OF that] that w1 by (cases "j = Suc i") (auto split: if_splits)
  then show ?case using len by blast
qed

lemma axis_list_entries:
  assumes "axis_list cfactor nio chan n = Inr ys"
  shows "length ys = n + 1 \<and> ys ! 0 = nio \<and> ys ! n = nio
         \<and> (\<forall>j. 0 < j \<and> j < n \<longrightarrow> 1 \<le> ys ! j)"
proof (cases "1 < n")
  case False
  then have "ys = (replicate (n + 1) 0)[0 := nio, n := nio]"
    using assms by (simp add: axis_list_def)
  then show ?thesis using False by (cases n) auto
next
  case True
  define xs where "xs = ((replicate (n + 1) 0)[0 := nio, n := nio])"
  from assms True obtain w where
    w: "interior_width cfactor chan 0 (channel_separation n) = Inr w"
    and fill: "fill_interior cfactor chan n (channel_separation n) [1 ..< n - 1] (xs[1 := w]) = Inr ys"
    by (auto simp: axis_list_def xs_def split: sum.splits)
  have w1: "1 \<le> w" using w by (auto simp: interior_width_def split: sum.splits)
  have lenxs: "length xs = n + 1"
    by (simp only: xs_def length_list_update length_replicate)
  have xs0: "xs ! 0 = nio" "xs ! n = nio"
    using True by (simp_all only: xs_def length_list_update length_replicate nth_list_update
        split: if_splits) simp_all
  note fe = fill_interior_entries [OF fill]
  have len: "length ys = n + 1" using fe lenxs by simp
  have e: "if j \<in> Suc ` set [1 ..< n - 1] then 1 \<le> ys ! j else ys ! j = (xs[1 := w]) ! j"
    if "j < n + 1" for j
  proof -
    have "j < length (xs[1 := w])" using that lenxs by simp
    with fe show ?thesis by blast
  qed
  have "Suc ` set [1 ..< n - 1] = {2 ..< n}"
    using True by (simp add: image_Suc_atLeastLessThan numeral_2_eq_2)
  then have mem: "j \<in> Suc ` set [1 ..< n - 1] \<longleftrightarrow> 2 \<le> j \<and> j < n" for j
    by simp
  have "ys ! 0 = nio" using e [of 0] mem [of 0] xs0 by simp
  moreover have "ys ! n = nio" using e [of n] mem [of n] True xs0 by simp
  moreover have "1 \<le> ys ! j" if "0 < j" "j < n" for j
  proof (cases "j = 1")
    case True
    then have "ys ! j = (xs[1 := w]) ! 1" using e [of j] mem [of j] that by simp
    then show ?thesis using w1 lenxs True that by simp
  next
    case False
    then have "2 \<le> j" using that by simp
    then show ?thesis using e [of j] mem [of j] that by simp
  qed
  ultimately show ?thesis using len by blast
qed

lemma init_chan_entries:
  assumes "init_chan cfactor chans nx_grid ny_grid = Inr cw"
  defines "nio0 \<equiv> \<lfloor>real_of_int cfactor * chan_width_io chans + 0.5\<rfloor>"
  defines "nio \<equiv> (if nio0 = 0 then 1 else nio0)"
  shows "length (x_list cw) = ny_grid + 1 \<and> x_list cw ! 0 = nio \<and> x_list cw ! ny_grid = nio
         \<and> (\<forall>j. 0 < j \<and> j < ny_grid \<longrightarrow> 1 \<le> x_list cw ! j)
         \<and> length (y_list cw) = nx_grid + 1 \<and> y_list cw ! 0 = nio \<and> y_list cw ! nx_grid = nio
         \<and> (\<forall>j. 0 < j \<and> j < nx_grid \<longrightarrow> 1 \<le> y_list cw ! j)"
proof -
  from assms(1) obtain xl yl where
    xl: "axis_list cfactor nio (chan_x_dist chans) ny_grid = Inr xl"
    and yl: "axis_list cfactor nio (chan_y_dist chans) nx_grid = Inr yl"
    and cw: "x_list cw = xl" "y_list cw = yl"
    unfolding init_chan_def Let_def nio_def nio0_def
    by (auto split: sum.splits)
  show ?thesis using axis_list_entries [OF xl] axis_list_entries [OF yl] cw by simp
qed

lemma init_chan_at_least_one:
  assumes ok: "init_chan cfactor chans nx_grid ny_grid = Inr cw"
    and pos: "0 < cfactor" "0 \<le> chan_width_io chans"
  shows "\<forall>w \<in> set (x_list cw) \<union> set (y_list cw). 1 \<le> w"
proof -
  define nio0 where "nio0 = \<lfloor>real_of_int cfactor * chan_width_io chans + 0.5\<rfloor>"
  define nio where "nio = (if nio0 = 0 then 1 else nio0)"
  have "0 \<le> real_of_int cfactor * chan_width_io chans + 0.5" using pos by simp
  then have "0 \<le> nio0" unfolding nio0_def by (simp only: zero_le_floor)
  then have nio: "1 \<le> nio" by (simp add: nio_def)
  note e = init_chan_entries [OF ok, folded nio0_def, folded nio_def]
  have "1 \<le> x_list cw ! j" if "j < length (x_list cw)" for j
  proof -
    have "j \<le> ny_grid" using that e by simp
    then consider "j = 0" | "j = ny_grid" | "0 < j" "j < ny_grid" by linarith
    then show ?thesis using e nio by cases simp_all
  qed
  moreover have "1 \<le> y_list cw ! j" if "j < length (y_list cw)" for j
  proof -
    have "j \<le> nx_grid" using that e by simp
    then consider "j = 0" | "j = nx_grid" | "0 < j" "j < nx_grid" by linarith
    then show ?thesis using e nio by cases simp_all
  qed
  ultimately show ?thesis by (auto simp: in_set_conv_nth)
qed

text \<open>
  C8. \<open>init_chan\<close> is documented to give every channel at least one track. The
  interior entries are floored at 1, and so is the boundary entry when the relative
  I/O width is not negative (\<open>init_chan_at_least_one\<close>). But the boundary entry is
  replaced by 1 only when it is zero: at the width factor 1 and the relative I/O width
  \<open>-1\<close> the boundary entries of both lists are \<open>-1\<close>.
\<close>

theorem init_chan_negative_io_width:
  "init_chan 1 negative_io_chans 3 3 =
     Inr \<lparr>x_list = [- 1, 1, 1, - 1], y_list = [- 1, 1, 1, - 1], max_width = 1,
          x_max = 1, x_min = - 1, y_max = 1, y_min = - 1\<rparr>"
  by (simp add: calc_eval negative_io_chans_def uniform_chans_def upt_rec numeral_eq_Suc)

end
